theory Spec2Isabelle
  imports Main
begin

section \<open>JavaScript values\<close>

text \<open>
  The values that flow through matchers, hooks and promises, by their content:
  callables and regular expressions are opaque handles, plain objects are lists of
  their own enumerable properties, arrays are dense lists.
\<close>

datatype jsval =
    Undefined
  | Null
  | Bool bool
  | Num int
  | Str string
  | RegExp string
  | Fn string
  | Arr "jsval list"
  | Obj "(string \<times> jsval) list"

text \<open>JavaScript truthiness, as used by \<^verbatim>\<open>if (x)\<close> and \<^verbatim>\<open>!x\<close>.\<close>

fun truthy :: "jsval \<Rightarrow> bool" where
  "truthy Undefined = False"
| "truthy Null = False"
| "truthy (Bool b) = b"
| "truthy (Num n) = (n \<noteq> 0)"
| "truthy (Str s) = (s \<noteq> [])"
| "truthy (RegExp r) = True"
| "truthy (Fn f) = True"
| "truthy (Arr xs) = True"
| "truthy (Obj kvs) = True"

text \<open>
  An object as the list of its own enumerable properties. \<^verbatim>\<open>Object.keys(o)\<close> lists
  each key once.
\<close>

definition object_keys :: "(string \<times> 'a) list \<Rightarrow> string list" where
  "object_keys kvs = remdups (map fst kvs)"

section \<open>Values with object identity\<close>

text \<open>
  \<^verbatim>\<open>clone\<close> and \<^verbatim>\<open>defaultOptions\<close> make new objects, so for them a value is kept with
  the identity of its objects: an array, object, regular expression or function carries
  the address it lives at, and two of them are the same object exactly when the
  addresses are equal. A plain object is its prototype (\<open>None\<close> is the initial
  \<^verbatim>\<open>Object.prototype\<close>, \<open>Some\<close> a prototype assigned later) and the list of its own
  enumerable properties; an array is a dense list. A value is a tree: an object that
  contains itself is outside the type, as it is outside what \<^verbatim>\<open>clone\<close> handles.
\<close>

type_synonym ident = nat

datatype jsnode =
    NUndefined
  | NNull
  | NBool bool
  | NNum int
  | NStr string
  | NRegExp ident string
  | NFn ident string
  | NArr ident "jsnode list"
  | NObj ident "jsnode option" "(string \<times> jsnode) list"

text \<open>
  Truthiness and \<^verbatim>\<open>typeof\<close> of such a value.
\<close>

fun node_truthy :: "jsnode \<Rightarrow> bool" where
  "node_truthy NUndefined = False"
| "node_truthy NNull = False"
| "node_truthy (NBool b) = b"
| "node_truthy (NNum n) = (n \<noteq> 0)"
| "node_truthy (NStr s) = (s \<noteq> [])"
| "node_truthy (NRegExp i r) = True"
| "node_truthy (NFn i f) = True"
| "node_truthy (NArr i xs) = True"
| "node_truthy (NObj i p kvs) = True"

fun typeof :: "jsnode \<Rightarrow> string" where
  "typeof NUndefined = ''undefined''"
| "typeof NNull = ''object''"
| "typeof (NBool b) = ''boolean''"
| "typeof (NNum n) = ''number''"
| "typeof (NStr s) = ''string''"
| "typeof (NRegExp i r) = ''object''"
| "typeof (NFn i f) = ''function''"
| "typeof (NArr i xs) = ''object''"
| "typeof (NObj i p kvs) = ''object''"

definition digit_char :: "nat \<Rightarrow> char" where
  "digit_char d = char_of (48 + d)"

fun decimal :: "nat \<Rightarrow> string" where
  "decimal n = (if n < 10 then [digit_char n] else decimal (n div 10) @ [digit_char (n mod 10)])"

text \<open>
  Own enumerable properties: the bindings of a plain object, the index properties of an
  array (keys are the decimal indices), none for every other value the kit enumerates.
\<close>

fun own_props :: "jsnode \<Rightarrow> (string \<times> jsnode) list" where
  "own_props (NObj i p kvs) = kvs"
| "own_props (NArr i xs) = zip (map decimal [0..<length xs]) xs"
| "own_props _ = []"

text \<open>
  \<^verbatim>\<open>o[k]\<close> for an own key and \<^verbatim>\<open>hasOwnProperty\<close>, on a property list: a read uses the
  first binding of the key.
\<close>

definition get_prop :: "(string \<times> jsnode) list \<Rightarrow> string \<Rightarrow> jsnode" where
  "get_prop kvs k = (case map_of kvs k of None \<Rightarrow> NUndefined | Some v \<Rightarrow> v)"

definition hasOwnProperty :: "(string \<times> 'a) list \<Rightarrow> string \<Rightarrow> bool" where
  "hasOwnProperty kvs k = (map_of kvs k \<noteq> None)"

text \<open>
  Writing an own data property: the binding is replaced in place, or appended.
\<close>

fun put_own :: "(string \<times> jsnode) list \<Rightarrow> string \<Rightarrow> jsnode \<Rightarrow> (string \<times> jsnode) list" where
  "put_own [] k v = [(k, v)]"
| "put_own ((k', v') # kvs) k v =
     (if k' = k then (k, v) # kvs else (k', v') # put_own kvs k v)"

text \<open>
  \<^verbatim>\<open>obj[k] = v\<close> on a plain object. An ordinary key becomes (or stays) an own
  property. The key \<^verbatim>\<open>__proto__\<close> is different: unless the object owns such a property
  or its prototype chain no longer leads to \<^verbatim>\<open>Object.prototype\<close>, the assignment runs
  the accessor of \<^verbatim>\<open>Object.prototype\<close>, which replaces the prototype when the value is
  an object or \<^verbatim>\<open>null\<close> and does nothing otherwise; no own property is made.
\<close>

fun inherits_proto_setter :: "jsnode option \<Rightarrow> bool" where
  "inherits_proto_setter None = True"
| "inherits_proto_setter (Some NNull) = False"
| "inherits_proto_setter (Some (NObj i p kvs)) =
     (\<not> hasOwnProperty kvs ''__proto__'' \<and> inherits_proto_setter p)"
| "inherits_proto_setter (Some v) = True"

fun is_object_or_null :: "jsnode \<Rightarrow> bool" where
  "is_object_or_null NNull = True"
| "is_object_or_null (NRegExp i r) = True"
| "is_object_or_null (NFn i f) = True"
| "is_object_or_null (NArr i xs) = True"
| "is_object_or_null (NObj i p kvs) = True"
| "is_object_or_null _ = False"

fun set_prop :: "jsnode \<Rightarrow> string \<Rightarrow> jsnode \<Rightarrow> jsnode" where
  "set_prop (NObj i p kvs) k v =
     (if k = ''__proto__'' \<and> \<not> hasOwnProperty kvs k \<and> inherits_proto_setter p
      then (if is_object_or_null v then NObj i (Some v) kvs else NObj i p kvs)
      else NObj i p (put_own kvs k v))"
| "set_prop obj k v = obj"

section \<open>clone\<close>

text \<open>
  \<^verbatim>\<open>exports.clone\<close>, with the next unused address passed along: falsy values,
  non-objects (functions included) and regular expressions are returned as they are;
  for an array or object a new one is made (\<^verbatim>\<open>result = []\<close>, \<^verbatim>\<open>result = {}\<close> take the next
  address) and filled key by key from \<^verbatim>\<open>Object.keys(original)\<close>, each value cloned
  recursively. For a dense array the loop over its index keys appends the elements.
\<close>

function clone :: "nat \<Rightarrow> jsnode \<Rightarrow> jsnode \<times> nat" where
  "clone n NUndefined = (NUndefined, n)"
| "clone n NNull = (NNull, n)"
| "clone n (NBool b) = (NBool b, n)"
| "clone n (NNum x) = (NNum x, n)"
| "clone n (NStr s) = (NStr s, n)"
| "clone n (NFn i f) = (NFn i f, n)"
| "clone n (NRegExp i r) = (NRegExp i r, n)"
| "clone n (NArr i xs) =
     (case fold (\<lambda>x (result, m). case clone m x of (y, m') \<Rightarrow> (result @ [y], m')) xs ([], Suc n) of
        (result, n') \<Rightarrow> (NArr n result, n'))"
| "clone n (NObj i p kvs) =
     fold (\<lambda>key (result, m). case clone m (get_prop kvs key) of (v, m') \<Rightarrow> (set_prop result key v, m'))
          (object_keys kvs) (NObj n None [], Suc n)"
  by pat_completeness auto
termination
proof (relation "measure (\<lambda>(n, v). size v)")
  show "wf (measure (\<lambda>(n :: nat, v :: jsnode). size v))" by simp
next
  fix n :: nat and i :: ident and xs :: "jsnode list" and x and m :: nat
  assume "x \<in> set xs"
  then show "((m, x), (n, NArr i xs)) \<in> measure (\<lambda>(n, v). size v)"
    by (simp add: size_list_estimation' less_Suc_eq_le)
next
  fix n :: nat and i :: ident and p :: "jsnode option" and kvs :: "(string \<times> jsnode) list"
    and key and m :: nat
  assume "key \<in> set (object_keys kvs)"
  then have "key \<in> fst ` set kvs"
    by (simp add: object_keys_def)
  then have "size (get_prop kvs key) < Suc (size_list (size_prod (\<lambda>_. 0) size) kvs)"
  proof (induction kvs)
    case Nil
    then show ?case by simp
  next
    case (Cons b kvs)
    obtain k' v' where b: "b = (k', v')" by (cases b)
    show ?case
    proof (cases "k' = key")
      case True
      then show ?thesis by (simp add: b get_prop_def)
    next
      case False
      with Cons.prems b have "key \<in> fst ` set kvs" by auto
      from Cons.IH [OF this] False show ?thesis by (simp add: b get_prop_def)
    qed
  qed
  then show "((m, get_prop kvs key), (n, NObj i p kvs)) \<in> measure (\<lambda>(n, v). size v)"
    by simp
qed

section \<open>defaultOptions\<close>

text \<open>
  \<^verbatim>\<open>exports.defaultOptions(defaults, override)\<close>, with the next unused address: the
  result is a new object that gets a clone of every default; then, when the override
  is truthy and of type object, each of its keys that the result already owns is
  overwritten with a clone of the override's value. The defaults are given by their
  own properties.
\<close>

definition defaultOptions :: "nat \<Rightarrow> (string \<times> jsnode) list \<Rightarrow> jsnode \<Rightarrow> jsnode \<times> nat" where
  "defaultOptions n defaults override =
     (case fold (\<lambda>key (result, m).
                   case clone m (get_prop defaults key) of (v, m') \<Rightarrow> (set_prop result key v, m'))
                (object_keys defaults) (NObj n None [], Suc n) of
        (result, m) \<Rightarrow>
          if node_truthy override \<and> typeof override = ''object''
          then fold (\<lambda>key (result, m).
                       if hasOwnProperty (own_props result) key
                       then (case clone m (get_prop (own_props override) key) of
                               (v, m') \<Rightarrow> (set_prop result key v, m'))
                       else (result, m))
                    (object_keys (own_props override)) (result, m)
          else (result, m))"

text \<open>
  The override defines a key: it is an object that lists the key among its own keys.
  The value the merge takes for a key of the defaults is the override's when the
  override defines the key, the default's otherwise.
\<close>

definition override_defines :: "jsnode \<Rightarrow> string \<Rightarrow> bool" where
  "override_defines override k \<longleftrightarrow>
     node_truthy override \<and> typeof override = ''object'' \<and> k \<in> set (object_keys (own_props override))"

definition merged_source :: "(string \<times> jsnode) list \<Rightarrow> jsnode \<Rightarrow> string \<Rightarrow> jsnode" where
  "merged_source defaults override k =
     (if override_defines override k then get_prop (own_props override) k else get_prop defaults k)"

text \<open>
  A deep clone. Two values are structurally equal when they are equal once the addresses
  of arrays and objects are forgotten (regular expressions and functions keep theirs:
  they are shared, not copied). The copy is a deep clone made between the addresses
  \<open>lo\<close> and \<open>hi\<close> when it is structurally equal to the original and its arrays and
  objects are pairwise different new objects, with addresses from \<open>lo\<close> up to \<open>hi\<close>.
  A plain value is made of arrays and of objects that have the initial prototype and
  no own key \<^verbatim>\<open>__proto__\<close>.
\<close>

fun erase :: "jsnode \<Rightarrow> jsnode" where
  "erase (NArr i xs) = NArr 0 (map erase xs)"
| "erase (NObj i p kvs) = NObj 0 p (map (\<lambda>kv. (fst kv, erase (snd kv))) kvs)"
| "erase v = v"

fun ids :: "jsnode \<Rightarrow> ident list" where
  "ids (NArr i xs) = i # concat (map ids xs)"
| "ids (NObj i p kvs) = i # concat (map (\<lambda>kv. ids (snd kv)) kvs)"
| "ids v = []"

fun plain :: "jsnode \<Rightarrow> bool" where
  "plain (NArr i xs) = list_all plain xs"
| "plain (NObj i p kvs) =
     (p = None \<and> distinct (map fst kvs) \<and> ''__proto__'' \<notin> set (map fst kvs) \<and>
      list_all (\<lambda>kv. plain (snd kv)) kvs)"
| "plain v = True"

definition is_deep_clone :: "nat \<Rightarrow> nat \<Rightarrow> jsnode \<Rightarrow> jsnode \<Rightarrow> bool" where
  "is_deep_clone lo hi original copy \<longleftrightarrow>
     erase copy = erase original \<and> distinct (ids copy) \<and> set (ids copy) \<subseteq> {lo..<hi}"

text \<open>
  The elements of a list cloned one after the other, and the two facts about a value
  that the proofs carry through the loops: its clone is a deep clone, and cloning does
  not move the next address back.
\<close>

fun clone_list :: "nat \<Rightarrow> jsnode list \<Rightarrow> jsnode list \<times> nat" where
  "clone_list n [] = ([], n)"
| "clone_list n (v # vs) =
     (case clone n v of (v', n1) \<Rightarrow> (case clone_list n1 vs of (vs', n2) \<Rightarrow> (v' # vs', n2)))"

definition clone_is_deep :: "jsnode \<Rightarrow> bool" where
  "clone_is_deep v \<longleftrightarrow> (\<forall>m v' m'. clone m v = (v', m') \<longrightarrow>
      m \<le> m' \<and> erase v' = erase v \<and> set (ids v') \<subseteq> {m..<m'} \<and> distinct (ids v'))"

definition clone_advances :: "jsnode \<Rightarrow> bool" where
  "clone_advances v \<longleftrightarrow> (\<forall>m. m \<le> snd (clone m v))"

section \<open>filenameMatcher\<close>

text \<open>
  A synchronous callable, by what it returns for the list of arguments it is called with.
  Match predicates are of this kind (\<^verbatim>\<open>This function may not be asynchronous\<close>).
\<close>

type_synonym jsfun = "jsval list \<Rightarrow> jsval"

text \<open>The i-th argument of a call, \<^verbatim>\<open>undefined\<close> when the caller passed fewer.\<close>

definition arg_at :: "jsval list \<Rightarrow> nat \<Rightarrow> jsval" where
  "arg_at args i = (if i < length args then args ! i else Undefined)"

text \<open>
  A \<^verbatim>\<open>matchItem\<close>, by the three branches \<^verbatim>\<open>filenameMatcher\<close> takes: a string (a glob
  pattern), a function, or anything else, which is used through its \<^verbatim>\<open>test\<close> method (a
  regular expression has one; a value without one makes \<^verbatim>\<open>singleMatch.test.bind\<close> throw).
\<close>

datatype matchItem =
    MString string
  | MFunction jsfun
  | MObject "jsfun option"

text \<open>A \<^verbatim>\<open>matchList\<close>: one item or an array of items.\<close>

datatype matchList = Single matchItem | Multiple "matchItem list"

datatype error = TypeError

text \<open>\<^verbatim>\<open>[].concat(match)\<close>: an array contributes its elements, anything else itself.\<close>

fun concat_match :: "matchList \<Rightarrow> matchItem list" where
  "concat_match (Single item) = [item]"
| "concat_match (Multiple items) = items"

text \<open>
  The callback of \<^verbatim>\<open>match.map\<close>. The glob library is outside the repository: its
  \<^verbatim>\<open>micromatch.matcher(pattern, options)\<close> is the parameter \<open>mm\<close>, a test on the input.
\<close>

fun compile_item :: "(string \<Rightarrow> jsval \<Rightarrow> jsval \<Rightarrow> bool) \<Rightarrow> jsval \<Rightarrow> matchItem \<Rightarrow> error + jsfun" where
  "compile_item mm options (MString pattern) = Inr (\<lambda>args. Bool (mm pattern options (arg_at args 0)))"
| "compile_item mm options (MFunction f) = Inr f"
| "compile_item mm options (MObject None) = Inl TypeError"
| "compile_item mm options (MObject (Some test)) = Inr test"

text \<open>\<^verbatim>\<open>Array.prototype.map\<close> with a callback that may throw: the first throw ends the map.\<close>

fun map_throwing :: "('a \<Rightarrow> error + 'b) \<Rightarrow> 'a list \<Rightarrow> error + 'b list" where
  "map_throwing f [] = Inr []"
| "map_throwing f (x # xs) =
     (case f x of
        Inl e \<Rightarrow> Inl e
      | Inr y \<Rightarrow> (case map_throwing f xs of Inl e \<Rightarrow> Inl e | Inr ys \<Rightarrow> Inr (y # ys)))"

text \<open>
  \<^verbatim>\<open>exports.filenameMatcher(match, options)\<close>. The function it returns takes one
  parameter and hands exactly that one value to the compiled items.
\<close>

definition filenameMatcher ::
  "(string \<Rightarrow> jsval \<Rightarrow> jsval \<Rightarrow> bool) \<Rightarrow> matchList \<Rightarrow> jsval \<Rightarrow> error + (jsval \<Rightarrow> jsval)" where
  "filenameMatcher mm match options =
     (let match = concat_match match
      in if length match = 0 then Inr (\<lambda>_. Bool False)
         else (case map_throwing (compile_item mm options) match of
                 Inl e \<Rightarrow> Inl e
               | Inr match \<Rightarrow>
                   if length match = 1 then Inr (\<lambda>item. (match ! 0) [item])
                   else Inr (\<lambda>filename.
                          Bool (list_ex (\<lambda>singleMatch. truthy (singleMatch [filename])) match))))"

text \<open>An item matches a filename: it compiles, and its predicate returns a truthy value.\<close>

definition item_matches :: "(string \<Rightarrow> jsval \<Rightarrow> jsval \<Rightarrow> bool) \<Rightarrow> jsval \<Rightarrow> matchItem \<Rightarrow> jsval \<Rightarrow> bool" where
  "item_matches mm options item filename =
     (case compile_item mm options item of Inl e \<Rightarrow> False | Inr p \<Rightarrow> truthy (p [filename]))"

section \<open>Promises\<close>

text \<open>
  A promise is modelled by its eventual state: it never settles, or it settles at some
  instant, fulfilled with a value or rejected with an error. Instants are natural
  numbers; reactions run at the instant their promise settles.
\<close>

type_synonym time = nat

datatype settlement = Fulfilled jsval | Rejected jsval

datatype promise = Never | Settles time settlement

text \<open>What is handed to \<^verbatim>\<open>resolve\<close> or returned by a handler: a plain value or a thenable.\<close>

datatype resolution = Plain jsval | Thenable promise

text \<open>How a synchronous call ends: it returns or it throws.\<close>

datatype completion = Return resolution | Throw jsval

text \<open>
  \<^verbatim>\<open>resolve(x)\<close> at instant \<open>t\<close>: a plain value fulfills the promise at once, a thenable
  is followed (its state is taken over, no earlier than \<open>t\<close>).
\<close>

fun resolve_at :: "time \<Rightarrow> resolution \<Rightarrow> promise" where
  "resolve_at t (Plain v) = Settles t (Fulfilled v)"
| "resolve_at t (Thenable Never) = Never"
| "resolve_at t (Thenable (Settles s x)) = Settles (max t s) x"

text \<open>The promise of an executor or handler body that ran at \<open>t\<close> and ended with \<open>c\<close>.\<close>

fun settle_completion :: "time \<Rightarrow> completion \<Rightarrow> promise" where
  "settle_completion t (Return r) = resolve_at t r"
| "settle_completion t (Throw e) = Settles t (Rejected e)"

text \<open>
  \<^verbatim>\<open>p.then(onFulfilled, onRejected)\<close> with the state \<open>'w\<close> the handlers work on. A
  handler gets the value and the instant it runs at; a missing handler passes the
  settlement through; a promise that never settles runs none.
\<close>

type_synonym 'w handler = "jsval \<Rightarrow> time \<Rightarrow> 'w \<Rightarrow> completion \<times> 'w"

fun promise_then :: "promise \<times> 'w \<Rightarrow> 'w handler option \<Rightarrow> 'w handler option \<Rightarrow> promise \<times> 'w" where
  "promise_then (Never, w) onFulfilled onRejected = (Never, w)"
| "promise_then (Settles t (Fulfilled v), w) None onRejected = (Settles t (Fulfilled v), w)"
| "promise_then (Settles t (Fulfilled v), w) (Some h) onRejected =
     (case h v t w of (c, w') \<Rightarrow> (settle_completion t c, w'))"
| "promise_then (Settles t (Rejected e), w) onFulfilled None = (Settles t (Rejected e), w)"
| "promise_then (Settles t (Rejected e), w) onFulfilled (Some h) =
     (case h e t w of (c, w') \<Rightarrow> (settle_completion t c, w'))"

text \<open>
  \<^verbatim>\<open>Promise.all\<close> called at \<open>t\<close>: every element is resolved; the result rejects with the
  earliest rejection (the first in the list among equals) as soon as it happens;
  without a rejection it fulfills with the array of values once all have fulfilled,
  and never settles when an element never does.
\<close>

fun rejection :: "promise \<Rightarrow> (time \<times> jsval) option" where
  "rejection (Settles s (Rejected e)) = Some (s, e)"
| "rejection _ = None"

fun fulfillment :: "promise \<Rightarrow> (time \<times> jsval) option" where
  "fulfillment (Settles s (Fulfilled v)) = Some (s, v)"
| "fulfillment _ = None"

definition promise_all :: "time \<Rightarrow> resolution list \<Rightarrow> promise" where
  "promise_all t rs =
     (let ps = map (resolve_at t) rs;
          rejections = List.map_filter rejection ps
      in if rejections \<noteq> [] then
           (case arg_min_list fst rejections of (s, e) \<Rightarrow> Settles s (Rejected e))
         else if list_ex (\<lambda>p. p = Never) ps then Never
         else Settles (fold max (map fst (List.map_filter fulfillment ps)) t)
                      (Fulfilled (Arr (map snd (List.map_filter fulfillment ps)))))"

section \<open>callFunction\<close>

text \<open>
  The file collection: filename to file record, in enumeration order. A file record is
  an object (its properties); a filename without a record reads as \<^verbatim>\<open>undefined\<close>.
\<close>

type_synonym metalsmithFile = "(string \<times> jsval) list"

type_synonym metalsmithFileCollection = "(string \<times> metalsmithFile) list"

text \<open>
  An argument handed to a hook: a value, the reference to the shared file collection
  (its content is in the state), or the completion function \<^verbatim>\<open>(err, result) => ...\<close>
  that \<^verbatim>\<open>callFunction\<close> appends.
\<close>

datatype arg = AVal jsval | AFiles | ACallback

text \<open>
  What one call of a user function does, as far as the kit can observe it:
  \<^item> the file collection as the kit next reads it: for an \<^verbatim>\<open>each\<close> call that is when the
    call returns (the next filename is dispatched at once), for a \<^verbatim>\<open>before\<close> call when
    its promise settles;
  \<^item> the calls it makes to the completion function it was given: delay after the call,
    error, result; delay 0 is a call made before the function returned or threw. The
    list is read only when a completion function was passed;
  \<^item> how the synchronous call ended.
  A user function is any function from the arguments and the collection it is called
  on to such a behaviour.
\<close>

record behaviour =
  files_after :: metalsmithFileCollection
  callbacks :: "(time \<times> jsval \<times> resolution) list"
  outcome :: completion

text \<open>A user function: its declared parameter count \<^verbatim>\<open>fn.length\<close> and what a call does.\<close>

record callable =
  fn_length :: nat
  body :: "arg list \<Rightarrow> metalsmithFileCollection \<Rightarrow> behaviour"

text \<open>The completion function called at \<open>t\<close> with \<^verbatim>\<open>(err, result)\<close>.\<close>

definition completion_fn :: "time \<Rightarrow> jsval \<Rightarrow> resolution \<Rightarrow> promise" where
  "completion_fn t err result = (if truthy err then Settles t (Rejected err) else resolve_at t result)"

text \<open>The earliest call of the completion function, the first listed among equals.\<close>

definition first_callback :: "(time \<times> jsval \<times> resolution) list \<Rightarrow> (time \<times> jsval \<times> resolution) option" where
  "first_callback cs = (if cs = [] then None else Some (arg_min_list fst cs))"

text \<open>
  The promise of the callback branch, whose executor ran \<^verbatim>\<open>fn.apply(null, args)\<close> at
  \<open>t\<close>. The first settlement wins: a completion call made before the function
  returned or threw, else the throw, else the earliest later completion call.
\<close>

definition settle_callback :: "time \<Rightarrow> behaviour \<Rightarrow> promise" where
  "settle_callback t b =
     (case first_callback (callbacks b) of
        None \<Rightarrow> (case outcome b of Throw e \<Rightarrow> Settles t (Rejected e) | Return r \<Rightarrow> Never)
      | Some (d, err, result) \<Rightarrow>
          (case outcome b of
             Throw e \<Rightarrow> if d = 0 then completion_fn t err result else Settles t (Rejected e)
           | Return r \<Rightarrow> completion_fn (t + d) err result))"

text \<open>
  The result of \<^verbatim>\<open>callFunction\<close>: the promise it returns, the file collection it leaves,
  and the argument list the function was applied to (none when no function was called).
\<close>

record call_result =
  promise_of :: promise
  files_of :: metalsmithFileCollection
  applied_to :: "arg list option"

text \<open>
  \<^verbatim>\<open>exports.callFunction(fn, args)\<close> called at \<open>t\<close> on the collection \<open>fs\<close>. A missing
  \<open>fn\<close> is \<open>None\<close>, a missing \<open>args\<close> is \<open>None\<close> (the function is then applied to no
  arguments).
\<close>

definition callFunction ::
  "callable option \<Rightarrow> arg list option \<Rightarrow> metalsmithFileCollection \<Rightarrow> time \<Rightarrow> call_result" where
  "callFunction fn args fs t =
     (case fn of
        None \<Rightarrow> \<lparr>promise_of = Settles t (Fulfilled Undefined), files_of = fs, applied_to = None\<rparr>
      | Some f \<Rightarrow>
          if (case args of None \<Rightarrow> False | Some as \<Rightarrow> fn_length f > length as) then
            (let as = (case args of None \<Rightarrow> [] | Some as \<Rightarrow> as) @ [ACallback];
                 b = body f as fs
             in \<lparr>promise_of = settle_callback t b, files_of = files_after b, applied_to = Some as\<rparr>)
          else
            (let as = (case args of None \<Rightarrow> [] | Some as \<Rightarrow> as);
                 b = body f as fs
             in \<lparr>promise_of = settle_completion t (outcome b), files_of = files_after b,
                 applied_to = Some as\<rparr>))"

section \<open>middleware\<close>

text \<open>
  One run of the middleware function is observed through the calls it makes: which hook
  was applied to which arguments at which instant, with the promise \<^verbatim>\<open>callFunction\<close>
  returned for the call, and the calls of \<^verbatim>\<open>done\<close> with their arguments.
\<close>

datatype hook = Before | Each | After

datatype event = Invoked hook "arg list" time promise | Done "jsval list" time

record world =
  files :: metalsmithFileCollection
  trace :: "event list"

text \<open>The effective options the middleware function closes over, after defaulting.\<close>

record options =
  before :: "callable option"
  each :: "callable option"
  after :: "callable option"

text \<open>\<^verbatim>\<open>exports.callFunction(options.h, args)\<close> on the world, the call recorded in the trace.\<close>

definition invoke :: "hook \<Rightarrow> callable option \<Rightarrow> arg list \<Rightarrow> time \<Rightarrow> world \<Rightarrow> promise \<times> world" where
  "invoke h fn args t w =
     (let r = callFunction fn (Some args) (files w) t
      in (promise_of r,
          w\<lparr>files := files_of r,
            trace := trace w @ (case applied_to r of
                                  None \<Rightarrow> []
                                | Some as \<Rightarrow> [Invoked h as t (promise_of r)])\<rparr>))"

text \<open>
  The callback of \<^verbatim>\<open>.map\<close> over the matched filenames, run at \<open>t\<close>: \<^verbatim>\<open>null\<close> for a
  filename whose record is gone, else the promise of the \<^verbatim>\<open>each\<close> call. The calls run
  one after the other, each on the collection the previous one left.
\<close>

fun dispatch :: "callable option \<Rightarrow> jsval \<Rightarrow> time \<Rightarrow> string list \<Rightarrow> world \<Rightarrow> resolution list \<times> world" where
  "dispatch fn metalsmith t [] w = ([], w)"
| "dispatch fn metalsmith t (filename # rest) w =
     (case map_of (files w) filename of
        None \<Rightarrow>
          (case dispatch fn metalsmith t rest w of (ps, w') \<Rightarrow> (Plain Null # ps, w'))
      | Some file \<Rightarrow>
          (case invoke Each fn [AVal (Str filename), AVal (Obj file), AFiles, AVal metalsmith] t w of
             (p, w1) \<Rightarrow>
               (case dispatch fn metalsmith t rest w1 of (ps, w2) \<Rightarrow> (Thenable p # ps, w2))))"

text \<open>\<^verbatim>\<open>Object.keys(files).filter((filename) => matcher(filename))\<close>.\<close>

definition matched :: "(jsval \<Rightarrow> jsval) \<Rightarrow> metalsmithFileCollection \<Rightarrow> string list" where
  "matched matcher fs = filter (\<lambda>filename. truthy (matcher (Str filename))) (object_keys fs)"

text \<open>\<^verbatim>\<open>done\<close> called with the given arguments at \<open>t\<close>; what it returns is not used.\<close>

definition done_handler :: "world handler" where
  "done_handler x t w = (Return (Plain Undefined), w\<lparr>trace := trace w @ [Done [x] t]\<rparr>)"

text \<open>
  \<^verbatim>\<open>middlewareFn(files, metalsmith, done)\<close> called at \<open>t0\<close>: the promise chain of the
  source, handler by handler. \<^verbatim>\<open>done.bind(null)\<close> binds no argument, so as a
  fulfillment handler it is \<^verbatim>\<open>done\<close> applied to the value of the promise.
\<close>

definition middlewareFn ::
  "options \<Rightarrow> (jsval \<Rightarrow> jsval) \<Rightarrow> metalsmithFileCollection \<Rightarrow> jsval \<Rightarrow> time \<Rightarrow> promise \<times> world" where
  "middlewareFn opts matcher fs metalsmith t0 =
     promise_then
       (promise_then
          (promise_then
             (invoke Before (before opts) [AFiles, AVal metalsmith] t0 \<lparr>files = fs, trace = []\<rparr>)
             (Some (\<lambda>_ t w.
                case dispatch (each opts) metalsmith t (matched matcher (files w)) w of
                  (promises, w') \<Rightarrow> (Return (Thenable (promise_all t promises)), w')))
             None)
          (Some (\<lambda>_ t w.
             case invoke After (after opts) [AFiles, AVal metalsmith] t w of
               (p, w') \<Rightarrow> (Return (Thenable p), w')))
          None)
       (Some done_handler)
       (Some done_handler)"

text \<open>The calls of one hook in a trace, and the calls of \<^verbatim>\<open>done\<close>.\<close>

fun calls_of :: "hook \<Rightarrow> event list \<Rightarrow> (arg list \<times> time \<times> promise) list" where
  "calls_of h [] = []"
| "calls_of h (Invoked h' as t p # es) = (if h' = h then (as, t, p) # calls_of h es else calls_of h es)"
| "calls_of h (Done xs t # es) = calls_of h es"

fun done_calls :: "event list \<Rightarrow> (jsval list \<times> time) list" where
  "done_calls [] = []"
| "done_calls (Invoked h as t p # es) = done_calls es"
| "done_calls (Done xs t # es) = (xs, t) # done_calls es"

section \<open>Statements about a run\<close>

text \<open>A promise has settled by the instant \<open>td\<close>.\<close>

fun settled_by :: "time \<Rightarrow> promise \<Rightarrow> bool" where
  "settled_by td Never = False"
| "settled_by td (Settles s x) = (s \<le> td)"

text \<open>
  Every call of \<^verbatim>\<open>done\<close> in the trace comes when every started \<^verbatim>\<open>each\<close> call of the
  trace has settled.
\<close>

definition waits_for_each :: "event list \<Rightarrow> bool" where
  "waits_for_each tr =
     list_all (\<lambda>(xs, td). list_all (\<lambda>(as, t, p). settled_by td p) (calls_of Each tr)) (done_calls tr)"

text \<open>A promise settles at \<open>t\<close> or later, or never.\<close>

fun not_before :: "time \<Rightarrow> promise \<Rightarrow> bool" where
  "not_before t Never = True"
| "not_before t (Settles s x) = (t \<le> s)"

text \<open>The end of a settled chain: \<^verbatim>\<open>done\<close> is called with \<open>x\<close> at \<open>t\<close>.\<close>

definition finish :: "jsval \<Rightarrow> time \<Rightarrow> world \<Rightarrow> promise \<times> world" where
  "finish x t w = (Settles t (Fulfilled Undefined), w\<lparr>trace := trace w @ [Done [x] t]\<rparr>)"






section \<open>Example functions and runs\<close>

text \<open>
  The example of the documentation of \<^verbatim>\<open>defaultOptions\<close>, and defaults with an own key
  \<^verbatim>\<open>__proto__\<close>, as \<^verbatim>\<open>JSON.parse('{"__proto__": "x", "a": "d1"}')\<close> makes them.
\<close>

definition ex_defaults :: "(string \<times> jsnode) list" where
  "ex_defaults = [(''a'', NStr ''default''), (''b'', NObj 1 None [(''bDefault'', NStr ''default'')])]"

definition ex_override :: jsnode where
  "ex_override = NObj 2 None [(''b'', NObj 3 None [(''bOverride'', NStr ''override'')]),
                               (''c'', NStr ''override but not in the result'')]"

definition ex_proto_defaults :: "(string \<times> jsnode) list" where
  "ex_proto_defaults = [(''__proto__'', NStr ''x''), (''a'', NStr ''d1'')]"

text \<open>Defaults whose value for \<^verbatim>\<open>a\<close> is an object with an own key \<^verbatim>\<open>__proto__\<close>.\<close>

definition ex_nested_proto :: jsnode where
  "ex_nested_proto = NObj 7 None [(''__proto__'', NStr ''y''), (''z'', NNum 1)]"

text \<open>A glob test that matches the input equal to the pattern, to run the examples with.\<close>

definition ex_mm :: "string \<Rightarrow> jsval \<Rightarrow> jsval \<Rightarrow> bool" where
  "ex_mm pattern options input = (input = Str pattern)"

text \<open>A match function that matches no filename.\<close>

definition ex_never :: jsfun where
  "ex_never args = Num 0"

text \<open>\<^verbatim>\<open>(cb) => { cb(null, 7); return 5; }\<close> and \<^verbatim>\<open>(cb) => cb("x")\<close>.\<close>

definition ex_cb_ok :: callable where
  "ex_cb_ok = \<lparr>fn_length = 1,
     body = (\<lambda>as fs. \<lparr>files_after = fs, callbacks = [(0, Null, Plain (Num 7))],
                       outcome = Return (Plain (Num 5))\<rparr>)\<rparr>"

definition ex_cb_err :: callable where
  "ex_cb_err = \<lparr>fn_length = 1,
     body = (\<lambda>as fs. \<lparr>files_after = fs, callbacks = [(0, Str ''x'', Plain Undefined)],
                       outcome = Return (Plain Undefined)\<rparr>)\<rparr>"

text \<open>The default hook \<^verbatim>\<open>() => {}\<close>, a hook \<^verbatim>\<open>() => 5\<close>, and the matcher of every filename.\<close>

definition noop :: callable where
  "noop = \<lparr>fn_length = 0,
     body = (\<lambda>as fs. \<lparr>files_after = fs, callbacks = [], outcome = Return (Plain Undefined)\<rparr>)\<rparr>"

definition ex_five :: callable where
  "ex_five = \<lparr>fn_length = 0,
     body = (\<lambda>as fs. \<lparr>files_after = fs, callbacks = [], outcome = Return (Plain (Num 5))\<rparr>)\<rparr>"

definition match_all :: "jsval \<Rightarrow> jsval" where
  "match_all filename = Bool True"

text \<open>
  An \<^verbatim>\<open>each\<close> hook that returns a promise: for \<^verbatim>\<open>a.txt\<close> one that rejects with "boom" at
  instant 1, for any other file one that fulfills at instant 5.
\<close>

definition ex_each_mixed :: callable where
  "ex_each_mixed = \<lparr>fn_length = 1,
     body = (\<lambda>as fs. \<lparr>files_after = fs, callbacks = [],
        outcome = Return (Thenable
          (case as of
             AVal (Str name) # _ \<Rightarrow>
               if name = ''a.txt'' then Settles 1 (Rejected (Str ''boom''))
               else Settles 5 (Fulfilled Undefined)
           | _ \<Rightarrow> Settles 5 (Fulfilled Undefined)))\<rparr>)\<rparr>"

definition ex_files :: metalsmithFileCollection where
  "ex_files = [(''a.txt'', [(''mode'', Str ''0644'')]), (''b.txt'', [(''mode'', Str ''0644'')])]"

definition ex_opts_mixed :: options where
  "ex_opts_mixed = \<lparr>before = Some noop, each = Some ex_each_mixed, after = Some noop\<rparr>"

definition ex_opts_five :: options where
  "ex_opts_five = \<lparr>before = Some noop, each = Some noop, after = Some ex_five\<rparr>"

text \<open>A hook that throws "bad", and the options of a run whose \<^verbatim>\<open>before\<close> hook is that one.\<close>

definition ex_throw :: callable where
  "ex_throw = \<lparr>fn_length = 0,
     body = (\<lambda>as fs. \<lparr>files_after = fs, callbacks = [], outcome = Throw (Str ''bad'')\<rparr>)\<rparr>"

definition ex_opts_throw :: options where
  "ex_opts_throw = \<lparr>before = Some ex_throw, each = Some noop, after = Some noop\<rparr>"





text \<open>A match function that wants the file contents as its second argument.\<close>

definition ex_wants_contents :: jsfun where
  "ex_wants_contents args = Bool (arg_at args 1 \<noteq> Undefined)"

section \<open>Properties of the options merge\<close>

lemma put_own_fresh: "k \<notin> fst ` set kvs \<Longrightarrow> put_own kvs k v = kvs @ [(k, v)]"
  by (induction kvs k v rule: put_own.induct) auto

lemma put_own_keys: "k \<in> fst ` set kvs \<Longrightarrow> map fst (put_own kvs k v) = map fst kvs"
  by (induction kvs k v rule: put_own.induct) auto

lemma map_of_put_own: "map_of (put_own kvs k v) = (map_of kvs)(k \<mapsto> v)"
  by (induction kvs k v rule: put_own.induct) (auto simp: fun_eq_iff)

lemma hasOwnProperty_keys: "hasOwnProperty kvs k \<longleftrightarrow> k \<in> fst ` set kvs"
  by (simp add: hasOwnProperty_def map_of_eq_None_iff)

lemma object_keys_distinct: "distinct (map fst kvs) \<Longrightarrow> object_keys kvs = map fst kvs"
  by (simp add: object_keys_def)

lemma get_prop_distinct:
  "distinct (map fst kvs) \<Longrightarrow> map (get_prop kvs) (map fst kvs) = map snd kvs"
proof (induction kvs)
  case Nil
  then show ?case by simp
next
  case (Cons b kvs)
  obtain k v where b: "b = (k, v)" by (cases b)
  from Cons.prems b have k: "k \<notin> fst ` set kvs" and d: "distinct (map fst kvs)" by auto
  have "map (get_prop ((k, v) # kvs)) (map fst kvs) = map (get_prop kvs) (map fst kvs)"
    using k by (auto simp: get_prop_def)
  with Cons.IH [OF d] show ?case by (simp add: b get_prop_def)
qed

text \<open>The loops of \<^verbatim>\<open>clone\<close> and \<^verbatim>\<open>defaultOptions\<close>, through \<open>clone_list\<close>.\<close>

lemma fold_array:
  "fold (\<lambda>x (result, m). case clone m x of (y, m') \<Rightarrow> (result @ [y], m')) xs (acc, m) =
     (acc @ fst (clone_list m xs), snd (clone_list m xs))"
  by (induction xs arbitrary: acc m) (auto split: prod.splits)

lemma fold_assign_fresh:
  assumes "distinct ks" "''__proto__'' \<notin> set ks" "set ks \<inter> fst ` set r = {}"
  shows "fold (\<lambda>key (result, m). case clone m (src key) of (v, m') \<Rightarrow> (set_prop result key v, m'))
              ks (NObj i p r, m) =
         (NObj i p (r @ zip ks (fst (clone_list m (map src ks)))), snd (clone_list m (map src ks)))"
  using assms
proof (induction ks arbitrary: r m)
  case Nil
  then show ?case by simp
next
  case (Cons k ks)
  obtain v m1 where c: "clone m (src k) = (v, m1)" by (cases "clone m (src k)")
  obtain vs m2 where cl: "clone_list m1 (map src ks) = (vs, m2)" by (cases "clone_list m1 (map src ks)")
  from Cons.prems have k: "k \<noteq> ''__proto__''" "k \<notin> fst ` set r" by auto
  then have sp: "set_prop (NObj i p r) k v = NObj i p (r @ [(k, v)])"
    by (simp add: put_own_fresh)
  from Cons.prems have pre: "distinct ks" "''__proto__'' \<notin> set ks" "set ks \<inter> fst ` set (r @ [(k, v)]) = {}"
    by auto
  show ?case
    using Cons.IH [OF pre, of m1] by (simp add: c cl sp del: set_prop.simps)
qed

lemma clone_list_advances:
  "\<forall>v \<in> set vs. clone_advances v \<Longrightarrow> m \<le> snd (clone_list m vs)"
proof (induction vs arbitrary: m)
  case Nil
  then show ?case by simp
next
  case (Cons v vs)
  obtain v' m1 where c: "clone m v = (v', m1)" by (cases "clone m v")
  from Cons.prems have "m \<le> snd (clone m v)" by (simp add: clone_advances_def)
  with c have "m \<le> m1" by simp
  moreover from Cons have "m1 \<le> snd (clone_list m1 vs)" by simp
  ultimately show ?case by (cases "clone_list m1 vs") (simp add: c)
qed

lemma clone_list_length: "length (fst (clone_list m vs)) = length vs"
proof (induction vs arbitrary: m)
  case Nil
  then show ?case by simp
next
  case (Cons v vs)
  obtain w m1 where c: "clone m v = (w, m1)" by (cases "clone m v")
  from Cons [of m1] show ?case by (cases "clone_list m1 vs") (simp add: c)
qed

lemma clone_list_deep:
  assumes "\<forall>v \<in> set vs. clone_is_deep v" "clone_list m vs = (vs', m')"
  shows "m \<le> m' \<and> map erase vs' = map erase vs \<and>
         set (concat (map ids vs')) \<subseteq> {m..<m'} \<and> distinct (concat (map ids vs'))"
  using assms
proof (induction vs arbitrary: m vs' m')
  case Nil
  then show ?case by simp
next
  case (Cons v vs)
  obtain w m1 where c: "clone m v = (w, m1)" by (cases "clone m v")
  obtain ws m2 where cl: "clone_list m1 vs = (ws, m2)" by (cases "clone_list m1 vs")
  from Cons.prems c cl have eq: "vs' = w # ws" "m' = m2" by auto
  from Cons.prems(1) c have g: "m \<le> m1" "erase w = erase v" "set (ids w) \<subseteq> {m..<m1}" "distinct (ids w)"
    by (auto simp: clone_is_deep_def)
  from Cons.prems(1) have "\<forall>v \<in> set vs. clone_is_deep v" by simp
  from Cons.IH [OF this cl] have ih: "m1 \<le> m2" "map erase ws = map erase vs"
    "set (concat (map ids ws)) \<subseteq> {m1..<m2}" "distinct (concat (map ids ws))" by auto
  have disj: "set (ids w) \<inter> set (concat (map ids ws)) = {}"
    using g(3) ih(3) by fastforce
  have sub: "set (ids w) \<subseteq> {m..<m2}" "set (concat (map ids ws)) \<subseteq> {m..<m2}"
    using g(1,3) ih(1,3) by fastforce+
  show ?case
    unfolding eq using g ih disj sub by auto
qed


lemma get_prop_in: "k \<in> fst ` set kvs \<Longrightarrow> (k, get_prop kvs k) \<in> set kvs"
proof -
  assume "k \<in> fst ` set kvs"
  then obtain v where v: "map_of kvs k = Some v"
    by (cases "map_of kvs k") (auto simp: map_of_eq_None_iff)
  then have "(k, v) \<in> set kvs" by (rule map_of_SomeD)
  with v show ?thesis by (simp add: get_prop_def)
qed

lemma fold_assign_counter:
  "snd (fold (\<lambda>key (result, m). case clone m (src key) of (v, m') \<Rightarrow> (set_prop result key v, m'))
             ks (r, m)) = snd (clone_list m (map src ks))"
proof (induction ks arbitrary: r m)
  case Nil
  then show ?case by simp
next
  case (Cons k ks)
  obtain v m1 where c: "clone m (src k) = (v, m1)" by (cases "clone m (src k)")
  show ?case
    using Cons [of "set_prop r k v" m1]
    by (cases "clone_list m1 (map src ks)") (simp add: c del: set_prop.simps)
qed

lemma clone_never_goes_back: "clone_advances v"
proof (induction v)
  case (NArr i xs)
  show ?case
    unfolding clone_advances_def
  proof
    fix m
    have "Suc m \<le> snd (clone_list (Suc m) xs)"
      using NArr by (intro clone_list_advances) auto
    then show "m \<le> snd (clone m (NArr i xs))"
      by (cases "clone_list (Suc m) xs") (simp add: fold_array)
  qed
next
  case (NObj i p kvs)
  show ?case
    unfolding clone_advances_def
  proof
    fix m
    have "\<forall>v \<in> set (map (get_prop kvs) (object_keys kvs)). clone_advances v"
    proof
      fix v assume "v \<in> set (map (get_prop kvs) (object_keys kvs))"
      then obtain k where k: "k \<in> fst ` set kvs" "v = get_prop kvs k"
        by (auto simp: object_keys_def)
      from get_prop_in [OF k(1)] k(2) have "(k, v) \<in> set kvs" by simp
      with NObj(2) [of "(k, v)" v] show "clone_advances v" by simp
    qed
    from clone_list_advances [OF this, of "Suc m"]
    show "m \<le> snd (clone m (NObj i p kvs))"
      by (simp add: fold_assign_counter)
  qed
qed (simp_all add: clone_advances_def)

lemma clone_le: "clone m v = (v', m') \<Longrightarrow> m \<le> m'"
  using clone_never_goes_back [of v, unfolded clone_advances_def, rule_format, of m] by simp

lemma erase_zip:
  "length ks = length vs \<Longrightarrow>
   map (\<lambda>kv. (fst kv, erase (snd kv))) (zip ks vs) = zip ks (map erase vs)"
  by (induction ks vs rule: list_induct2) auto

lemma ids_zip:
  "length ks = length vs \<Longrightarrow> concat (map (\<lambda>kv. ids (snd kv)) (zip ks vs)) = concat (map ids vs)"
  by (induction ks vs rule: list_induct2) auto

lemma plain_clone_is_deep: "plain v \<Longrightarrow> clone_is_deep v"
proof (induction v)
  case (NArr i xs)
  then have els: "\<forall>x \<in> set xs. clone_is_deep x" by (auto simp: list_all_iff)
  show ?case
    unfolding clone_is_deep_def
  proof (intro allI impI)
    fix m v' m'
    assume c: "clone m (NArr i xs) = (v', m')"
    obtain ys n' where cl: "clone_list (Suc m) xs = (ys, n')" by (cases "clone_list (Suc m) xs")
    from c cl have v': "v' = NArr m ys" "m' = n'" by (simp_all add: fold_array)
    from clone_list_deep [OF els cl] have g: "Suc m \<le> n'" "map erase ys = map erase xs"
      "set (concat (map ids ys)) \<subseteq> {Suc m..<n'}" "distinct (concat (map ids ys))" by auto
    from g(3) have "m \<notin> set (concat (map ids ys))" by fastforce
    moreover from g(1,3) have "set (concat (map ids ys)) \<subseteq> {m..<n'}" by fastforce
    ultimately show "m \<le> m' \<and> erase v' = erase (NArr i xs) \<and> set (ids v') \<subseteq> {m..<m'} \<and> distinct (ids v')"
      unfolding v' using g by auto
  qed
next
  case (NObj i p kvs)
  from NObj.prems have pl: "p = None" "distinct (map fst kvs)" "''__proto__'' \<notin> set (map fst kvs)"
    "\<forall>kv \<in> set kvs. plain (snd kv)" by (auto simp: list_all_iff)
  have els: "\<forall>v \<in> set (map snd kvs). clone_is_deep v"
  proof
    fix v assume "v \<in> set (map snd kvs)"
    then obtain kv where kv: "kv \<in> set kvs" "v = snd kv" by auto
    with pl(4) have "plain v" by simp
    with NObj.IH(2) [of kv v] kv show "clone_is_deep v" by (cases kv) auto
  qed
  show ?case
    unfolding clone_is_deep_def
  proof (intro allI impI)
    fix m v' m'
    assume c: "clone m (NObj i p kvs) = (v', m')"
    let ?ks = "map fst kvs"
    obtain ys n' where cl: "clone_list (Suc m) (map snd kvs) = (ys, n')"
      by (cases "clone_list (Suc m) (map snd kvs)")
    have len: "length ?ks = length ys"
      using clone_list_length [of "Suc m" "map snd kvs"] cl by simp
    have src: "map (get_prop kvs) ?ks = map snd kvs"
      by (rule get_prop_distinct [OF pl(2)])
    have "clone m (NObj i p kvs) = (NObj m None ([] @ zip ?ks ys), n')"
      using fold_assign_fresh [of ?ks "[]" "get_prop kvs" m None "Suc m"] pl(2,3)
      unfolding src cl by (simp add: object_keys_distinct)
    with c have v': "v' = NObj m None (zip ?ks ys)" "m' = n'" by simp_all
    from clone_list_deep [OF els cl] have g: "Suc m \<le> n'" "map erase ys = map erase (map snd kvs)"
      "set (concat (map ids ys)) \<subseteq> {Suc m..<n'}" "distinct (concat (map ids ys))" by auto
    have er: "erase v' = erase (NObj i p kvs)"
    proof -
      have "map (\<lambda>kv. (fst kv, erase (snd kv))) kvs = zip ?ks (map erase (map snd kvs))"
        by (induction kvs) auto
      with g(2) show ?thesis
        by (simp add: v' pl(1) erase_zip [OF len])
    qed
    from g(3) have "m \<notin> set (concat (map ids ys))" by fastforce
    moreover from g(1,3) have "set (concat (map ids ys)) \<subseteq> {m..<n'}" by fastforce
    ultimately show "m \<le> m' \<and> erase v' = erase (NObj i p kvs) \<and> set (ids v') \<subseteq> {m..<m'} \<and> distinct (ids v')"
      using g er by (auto simp: v' ids_zip [OF len])
  qed
qed (simp_all add: clone_is_deep_def)


lemma clone_list_nth:
  "j < length vs \<Longrightarrow>
   \<exists>mj. m \<le> mj \<and> snd (clone mj (vs ! j)) \<le> snd (clone_list m vs) \<and>
        fst (clone_list m vs) ! j = fst (clone mj (vs ! j))"
proof (induction vs arbitrary: m j)
  case Nil
  then show ?case by simp
next
  case (Cons v vs)
  obtain w m1 where c: "clone m v = (w, m1)" by (cases "clone m v")
  obtain ws m2 where cl: "clone_list m1 vs = (ws, m2)" by (cases "clone_list m1 vs")
  have m1: "m \<le> m1" by (rule clone_le [OF c])
  have m2: "m1 \<le> m2" using clone_list_advances [of vs m1] clone_never_goes_back cl by simp
  show ?case
  proof (cases j)
    case 0
    with c cl m2 show ?thesis by (intro exI [of _ m]) simp
  next
    case (Suc j')
    with Cons.prems have "j' < length vs" by simp
    from Cons.IH [OF this, of m1] cl obtain mj where
      "m1 \<le> mj" "snd (clone mj (vs ! j')) \<le> m2" "ws ! j' = fst (clone mj (vs ! j'))" by auto
    with m1 Suc c cl show ?thesis by (intro exI [of _ mj]) simp
  qed
qed

lemma first_loop_value:
  assumes "distinct ks" "k \<in> set ks"
  shows "\<exists>mk. m \<le> mk \<and> snd (clone mk (src k)) \<le> snd (clone_list m (map src ks)) \<and>
           map_of (zip ks (fst (clone_list m (map src ks)))) k = Some (fst (clone mk (src k)))"
proof -
  from assms(2) obtain j where j: "j < length ks" "ks ! j = k" by (auto simp: in_set_conv_nth)
  have len: "length ks = length (fst (clone_list m (map src ks)))"
    by (simp add: clone_list_length)
  from clone_list_nth [of j "map src ks" m] j obtain mk where mk: "m \<le> mk"
    "snd (clone mk (src k)) \<le> snd (clone_list m (map src ks))"
    "fst (clone_list m (map src ks)) ! j = fst (clone mk (src k))" by auto
  have "map_of (zip ks (fst (clone_list m (map src ks)))) (ks ! j) = Some (fst (clone_list m (map src ks)) ! j)"
    using len j(1) assms(1) by (intro map_of_zip_nth) auto
  with mk j(2) show ?thesis by auto
qed

lemma second_loop:
  assumes "''__proto__'' \<notin> fst ` set r" "distinct ks"
  shows "\<exists>r' m'.
     fold (\<lambda>key (result, m).
             if hasOwnProperty (own_props result) key
             then (case clone m (src key) of (v, m') \<Rightarrow> (set_prop result key v, m'))
             else (result, m)) ks (NObj i p r, m) = (NObj i p r', m') \<and>
     map fst r' = map fst r \<and> m \<le> m' \<and>
     (\<forall>k. if k \<in> set ks \<and> k \<in> fst ` set r
          then (\<exists>mk. m \<le> mk \<and> snd (clone mk (src k)) \<le> m' \<and> map_of r' k = Some (fst (clone mk (src k))))
          else map_of r' k = map_of r k)"
  using assms
proof (induction ks arbitrary: r m)
  case Nil
  then show ?case by simp
next
  case (Cons a ks)
  from Cons.prems have ks: "distinct ks" "a \<notin> set ks" by auto
  show ?case
  proof (cases "a \<in> fst ` set r")
    case False
    from Cons.IH [OF Cons.prems(1) ks(1), of m] obtain r' m' where ih:
      "fold (\<lambda>key (result, m).
             if hasOwnProperty (own_props result) key
             then (case clone m (src key) of (v, m') \<Rightarrow> (set_prop result key v, m'))
             else (result, m)) ks (NObj i p r, m) = (NObj i p r', m')"
      "map fst r' = map fst r" "m \<le> m'"
      "\<forall>k. if k \<in> set ks \<and> k \<in> fst ` set r
          then (\<exists>mk. m \<le> mk \<and> snd (clone mk (src k)) \<le> m' \<and> map_of r' k = Some (fst (clone mk (src k))))
          else map_of r' k = map_of r k"
      by blast
    have step: "fold (\<lambda>key (result, m).
             if hasOwnProperty (own_props result) key
             then (case clone m (src key) of (v, m') \<Rightarrow> (set_prop result key v, m'))
             else (result, m)) (a # ks) (NObj i p r, m) = (NObj i p r', m')"
      using False ih(1) by (simp add: hasOwnProperty_keys)
    have vals: "\<forall>k. if k \<in> set (a # ks) \<and> k \<in> fst ` set r
          then (\<exists>mk. m \<le> mk \<and> snd (clone mk (src k)) \<le> m' \<and> map_of r' k = Some (fst (clone mk (src k))))
          else map_of r' k = map_of r k"
    proof
      fix k
      have "(k \<in> set (a # ks) \<and> k \<in> fst ` set r) = (k \<in> set ks \<and> k \<in> fst ` set r)"
        using False by auto
      with ih(4) [rule_format, of k]
      show "if k \<in> set (a # ks) \<and> k \<in> fst ` set r
          then (\<exists>mk. m \<le> mk \<and> snd (clone mk (src k)) \<le> m' \<and> map_of r' k = Some (fst (clone mk (src k))))
          else map_of r' k = map_of r k"
        by simp
    qed
    from step ih(2,3) vals show ?thesis by blast
  next
    case True
    obtain v m1 where c: "clone m (src a) = (v, m1)" by (cases "clone m (src a)")
    have m1: "m \<le> m1" by (rule clone_le [OF c])
    from True Cons.prems(1) have a: "a \<noteq> ''__proto__''" by blast
    let ?r1 = "put_own r a v"
    have keys1: "map fst ?r1 = map fst r" by (rule put_own_keys [OF True])
    then have set1: "fst ` set ?r1 = fst ` set r" by (metis list.set_map)
    with Cons.prems(1) have p1: "''__proto__'' \<notin> fst ` set ?r1" by simp
    from Cons.IH [OF p1 ks(1), of m1] obtain r' m' where ih:
      "fold (\<lambda>key (result, m).
             if hasOwnProperty (own_props result) key
             then (case clone m (src key) of (v, m') \<Rightarrow> (set_prop result key v, m'))
             else (result, m)) ks (NObj i p ?r1, m1) = (NObj i p r', m')"
      "map fst r' = map fst ?r1" "m1 \<le> m'"
      "\<forall>k. if k \<in> set ks \<and> k \<in> fst ` set ?r1
          then (\<exists>mk. m1 \<le> mk \<and> snd (clone mk (src k)) \<le> m' \<and> map_of r' k = Some (fst (clone mk (src k))))
          else map_of r' k = map_of ?r1 k"
      by blast
    have step: "fold (\<lambda>key (result, m).
             if hasOwnProperty (own_props result) key
             then (case clone m (src key) of (v, m') \<Rightarrow> (set_prop result key v, m'))
             else (result, m)) (a # ks) (NObj i p r, m) = (NObj i p r', m')"
      using True a c ih(1) by (simp add: hasOwnProperty_keys)
    have vals: "if k \<in> set (a # ks) \<and> k \<in> fst ` set r
          then (\<exists>mk. m \<le> mk \<and> snd (clone mk (src k)) \<le> m' \<and> map_of r' k = Some (fst (clone mk (src k))))
          else map_of r' k = map_of r k" for k
    proof (cases "k = a")
      case ka: True
      from ih(4) [rule_format, of a] ks(2) have "map_of r' a = map_of ?r1 a" by simp
      then have "map_of r' a = Some (fst (clone m (src a)))"
        by (simp add: map_of_put_own c)
      with c ih(3) have "m \<le> m \<and> snd (clone m (src a)) \<le> m' \<and>
                map_of r' a = Some (fst (clone m (src a)))" by simp
      then have "\<exists>mk. m \<le> mk \<and> snd (clone mk (src a)) \<le> m' \<and>
                map_of r' a = Some (fst (clone mk (src a)))" ..
      with ka True show ?thesis by simp
    next
      case kn: False
      show ?thesis
      proof (cases "k \<in> set ks \<and> k \<in> fst ` set r")
        case in_ks: True
        with ih(4) [rule_format, of k, unfolded set1]
        have "\<exists>mk. m1 \<le> mk \<and> snd (clone mk (src k)) \<le> m' \<and>
                map_of r' k = Some (fst (clone mk (src k)))" by simp
        then obtain mk where "m1 \<le> mk" "snd (clone mk (src k)) \<le> m'"
          "map_of r' k = Some (fst (clone mk (src k)))" by blast
        with m1 have "m \<le> mk \<and> snd (clone mk (src k)) \<le> m' \<and>
                map_of r' k = Some (fst (clone mk (src k)))" by simp
        then have "\<exists>mk. m \<le> mk \<and> snd (clone mk (src k)) \<le> m' \<and>
                map_of r' k = Some (fst (clone mk (src k)))" ..
        with in_ks show ?thesis by simp
      next
        case out: False
        with ih(4) [rule_format, of k, unfolded set1] have "map_of r' k = map_of ?r1 k" by simp
        then have eq: "map_of r' k = map_of r k" using kn by (simp add: map_of_put_own)
        have neg: "\<not> (k \<in> set (a # ks) \<and> k \<in> fst ` set r)" using kn out by simp
        show ?thesis unfolding if_not_P [OF neg] by (rule eq)
      qed
    qed
    have keys: "map fst r' = map fst r" by (simp add: ih(2) keys1)
    have le: "m \<le> m'" using m1 ih(3) by simp
    from step keys le vals show ?thesis by blast
  qed
qed

lemma defaultOptions_shape:
  assumes np: "''__proto__'' \<notin> set (object_keys defaults)"
  obtains props n' where
    "defaultOptions n defaults override = (NObj n None props, n')"
    "map fst props = object_keys defaults"
    "\<And>k. k \<in> set (object_keys defaults) \<Longrightarrow>
       \<exists>mk. Suc n \<le> mk \<and> snd (clone mk (merged_source defaults override k)) \<le> n' \<and>
            map_of props k = Some (fst (clone mk (merged_source defaults override k)))"
proof -
  let ?ks = "object_keys defaults"
  let ?src = "get_prop defaults"
  let ?vs = "fst (clone_list (Suc n) (map ?src ?ks))"
  let ?m1 = "snd (clone_list (Suc n) (map ?src ?ks))"
  let ?r = "zip ?ks ?vs"
  have dk: "distinct ?ks" by (simp add: object_keys_def)
  have len: "length ?ks = length ?vs" by (simp add: clone_list_length)
  have first: "fold (\<lambda>key (result, m).
                   case clone m (get_prop defaults key) of (v, m') \<Rightarrow> (set_prop result key v, m'))
                ?ks (NObj n None [], Suc n) = (NObj n None ?r, ?m1)"
    using fold_assign_fresh [of ?ks "[]" ?src n None "Suc n"] dk np by simp
  have keys_r: "map fst ?r = ?ks" using len by (simp add: map_fst_zip)
  have m1: "Suc n \<le> ?m1" using clone_list_advances [of "map ?src ?ks" "Suc n"] clone_never_goes_back by simp
  have val1: "\<exists>mk. Suc n \<le> mk \<and> snd (clone mk (?src k)) \<le> ?m1 \<and>
           map_of ?r k = Some (fst (clone mk (?src k)))" if "k \<in> set ?ks" for k
    by (rule first_loop_value [OF dk that])
  show ?thesis
  proof (cases "node_truthy override \<and> typeof override = ''object''")
    case False
    then have res: "defaultOptions n defaults override = (NObj n None ?r, ?m1)"
      by (simp only: defaultOptions_def first prod.case if_False)
    have src: "merged_source defaults override k = ?src k" for k
      using False by (auto simp: merged_source_def override_defines_def)
    show ?thesis
      by (rule that [OF res keys_r]) (simp only: src val1)
  next
    case True
    let ?ks2 = "object_keys (own_props override)"
    let ?src2 = "get_prop (own_props override)"
    have dk2: "distinct ?ks2" by (simp add: object_keys_def)
    have npr: "''__proto__'' \<notin> fst ` set ?r" using np keys_r by (metis list.set_map)
    from second_loop [OF npr dk2, of ?src2 n None ?m1] obtain r' n' where sl:
      "fold (\<lambda>key (result, m).
             if hasOwnProperty (own_props result) key
             then (case clone m (?src2 key) of (v, m') \<Rightarrow> (set_prop result key v, m'))
             else (result, m)) ?ks2 (NObj n None ?r, ?m1) = (NObj n None r', n')"
      "map fst r' = map fst ?r" "?m1 \<le> n'"
      "\<forall>k. if k \<in> set ?ks2 \<and> k \<in> fst ` set ?r
          then (\<exists>mk. ?m1 \<le> mk \<and> snd (clone mk (?src2 k)) \<le> n' \<and> map_of r' k = Some (fst (clone mk (?src2 k))))
          else map_of r' k = map_of ?r k"
      by blast
    have res: "defaultOptions n defaults override = (NObj n None r', n')"
      unfolding defaultOptions_def first prod.case using True sl(1) by simp
    have keys: "map fst r' = ?ks" by (simp add: sl(2) keys_r)
    have set_r: "fst ` set ?r = set ?ks" using keys_r by (metis list.set_map)
    have vals: "\<exists>mk. Suc n \<le> mk \<and> snd (clone mk (merged_source defaults override k)) \<le> n' \<and>
            map_of r' k = Some (fst (clone mk (merged_source defaults override k)))"
      if k: "k \<in> set ?ks" for k
    proof (cases "k \<in> set ?ks2")
      case in2: True
      then have src: "merged_source defaults override k = ?src2 k"
        using True by (simp add: merged_source_def override_defines_def)
      from sl(4) [rule_format, of k] in2 k set_r
      have "\<exists>mk. ?m1 \<le> mk \<and> snd (clone mk (?src2 k)) \<le> n' \<and> map_of r' k = Some (fst (clone mk (?src2 k)))"
        by simp
      then obtain mk where "?m1 \<le> mk" "snd (clone mk (?src2 k)) \<le> n'"
        "map_of r' k = Some (fst (clone mk (?src2 k)))" by blast
      with m1 have "Suc n \<le> mk \<and> snd (clone mk (?src2 k)) \<le> n' \<and>
          map_of r' k = Some (fst (clone mk (?src2 k)))" by simp
      then show ?thesis unfolding src ..
    next
      case out2: False
      then have src: "merged_source defaults override k = ?src k"
        by (simp add: merged_source_def override_defines_def)
      from sl(4) [rule_format, of k] out2 have eq: "map_of r' k = map_of ?r k" by simp
      from val1 [OF k] obtain mk where "Suc n \<le> mk" "snd (clone mk (?src k)) \<le> ?m1"
        "map_of ?r k = Some (fst (clone mk (?src k)))" by blast
      with sl(3) eq have "Suc n \<le> mk \<and> snd (clone mk (?src k)) \<le> n' \<and>
          map_of r' k = Some (fst (clone mk (?src k)))" by simp
      then show ?thesis unfolding src ..
    qed
    show ?thesis
      by (rule that [OF res keys]) (rule vals)
  qed
qed

text \<open>
  Claim C7, amended. For defaults without an own key \<^verbatim>\<open>__proto__\<close>, the result of
  \<^verbatim>\<open>defaultOptions\<close> is a new object with the initial prototype that owns exactly the keys
  of the defaults. Each key holds a deep clone of the override's value when the
  override is an object that defines the key, and of the default's value otherwise,
  whenever that value is plain: a structurally equal copy whose arrays and objects are
  all new. A key that only the override has is not a property of the result; merging
  \<^verbatim>\<open>{a:"d1", b:"d2"}\<close> with \<^verbatim>\<open>{a:"o1", c:"ignored"}\<close> gives \<^verbatim>\<open>{a:"o1", b:"d2"}\<close>.
\<close>

theorem defaultOptions_keys_and_values:
  assumes "''__proto__'' \<notin> set (object_keys defaults)"
  shows "(\<exists>props. fst (defaultOptions n defaults override) = NObj n None props) \<and>
    object_keys (own_props (fst (defaultOptions n defaults override))) = object_keys defaults \<and>
    (\<forall>k \<in> set (object_keys defaults).
       plain (merged_source defaults override k) \<longrightarrow>
       is_deep_clone (Suc n) (snd (defaultOptions n defaults override))
         (merged_source defaults override k)
         (get_prop (own_props (fst (defaultOptions n defaults override))) k)) \<and>
    (\<forall>k. k \<notin> set (object_keys defaults) \<longrightarrow>
       \<not> hasOwnProperty (own_props (fst (defaultOptions n defaults override))) k) \<and>
    defaultOptions n [(''a'', NStr ''d1''), (''b'', NStr ''d2'')]
                     (NObj i None [(''a'', NStr ''o1''), (''c'', NStr ''ignored'')])
      = (NObj n None [(''a'', NStr ''o1''), (''b'', NStr ''d2'')], Suc n)"
proof -
  from defaultOptions_shape [OF assms, of n override] obtain props n' where
    res: "defaultOptions n defaults override = (NObj n None props, n')"
    and keys: "map fst props = object_keys defaults"
    and vals: "\<And>k. k \<in> set (object_keys defaults) \<Longrightarrow>
       \<exists>mk. Suc n \<le> mk \<and> snd (clone mk (merged_source defaults override k)) \<le> n' \<and>
            map_of props k = Some (fst (clone mk (merged_source defaults override k)))"
    by blast
  have dist: "distinct (map fst props)" by (simp add: keys object_keys_def)
  have ok: "object_keys props = object_keys defaults"
    using dist keys by (simp add: object_keys_distinct)
  have deep: "is_deep_clone (Suc n) n' (merged_source defaults override k) (get_prop props k)"
    if k: "k \<in> set (object_keys defaults)" and pl: "plain (merged_source defaults override k)" for k
  proof -
    let ?s = "merged_source defaults override k"
    from vals [OF k] obtain mk where mk: "Suc n \<le> mk" "snd (clone mk ?s) \<le> n'"
      "map_of props k = Some (fst (clone mk ?s))" by blast
    obtain v' m' where c: "clone mk ?s = (v', m')" by (cases "clone mk ?s")
    from plain_clone_is_deep [OF pl] c have g: "erase v' = erase ?s" "set (ids v') \<subseteq> {mk..<m'}" "distinct (ids v')"
      by (auto simp: clone_is_deep_def)
    from g(2) mk(1,2) c have "set (ids v') \<subseteq> {Suc n..<n'}" by fastforce
    with g mk(3) c show ?thesis by (simp add: is_deep_clone_def get_prop_def)
  qed
  have absent: "\<not> hasOwnProperty props k" if "k \<notin> set (object_keys defaults)" for k
  proof -
    have "fst ` set props = set (object_keys defaults)" using keys by (metis list.set_map)
    with that show ?thesis by (simp add: hasOwnProperty_keys)
  qed
  have example: "defaultOptions n [(''a'', NStr ''d1''), (''b'', NStr ''d2'')]
                     (NObj i None [(''a'', NStr ''o1''), (''c'', NStr ''ignored'')])
      = (NObj n None [(''a'', NStr ''o1''), (''b'', NStr ''d2'')], Suc n)"
    by (simp add: defaultOptions_def object_keys_def get_prop_def hasOwnProperty_def)
  show ?thesis
    using ok deep absent example by (simp add: res)
qed

text \<open>
  The example of the documentation: key b holds a new object equal to the override's,
  key c is absent.
\<close>

theorem defaultOptions_witness:
  "''__proto__'' \<notin> set (object_keys ex_defaults) \<and>
   ''b'' \<in> set (object_keys ex_defaults) \<and>
   merged_source ex_defaults ex_override ''b'' = NObj 3 None [(''bOverride'', NStr ''override'')] \<and>
   plain (NObj 3 None [(''bOverride'', NStr ''override'')]) \<and>
   defaultOptions 10 ex_defaults ex_override =
     (NObj 10 None [(''a'', NStr ''default''), (''b'', NObj 12 None [(''bOverride'', NStr ''override'')])], 13) \<and>
   is_deep_clone 11 13 (NObj 3 None [(''bOverride'', NStr ''override'')])
     (NObj 12 None [(''bOverride'', NStr ''override'')]) \<and>
   \<not> hasOwnProperty (own_props (fst (defaultOptions 10 ex_defaults ex_override))) ''c''"
proof -
  have h: "''__proto__'' \<notin> set (object_keys ex_defaults)"
    by (simp add: ex_defaults_def object_keys_def)
  have b: "''b'' \<in> set (object_keys ex_defaults)"
    by (simp add: ex_defaults_def object_keys_def)
  have c: "''c'' \<notin> set (object_keys ex_defaults)"
    by (simp add: ex_defaults_def object_keys_def)
  have s: "merged_source ex_defaults ex_override ''b'' = NObj 3 None [(''bOverride'', NStr ''override'')]"
    by (simp add: merged_source_def override_defines_def ex_override_def object_keys_def get_prop_def)
  have p: "plain (NObj 3 None [(''bOverride'', NStr ''override'')])" by simp
  have r: "defaultOptions 10 ex_defaults ex_override =
     (NObj 10 None [(''a'', NStr ''default''), (''b'', NObj 12 None [(''bOverride'', NStr ''override'')])], 13)"
    by (simp add: defaultOptions_def ex_defaults_def ex_override_def object_keys_def get_prop_def
        hasOwnProperty_def)
  note t = defaultOptions_keys_and_values [OF h, of 10 ex_override 0]
  from t b have "plain (merged_source ex_defaults ex_override ''b'') \<longrightarrow>
       is_deep_clone (Suc 10) (snd (defaultOptions 10 ex_defaults ex_override))
         (merged_source ex_defaults ex_override ''b'')
         (get_prop (own_props (fst (defaultOptions 10 ex_defaults ex_override))) ''b'')"
    by blast
  with s p r have d: "is_deep_clone 11 13 (NObj 3 None [(''bOverride'', NStr ''override'')])
     (NObj 12 None [(''bOverride'', NStr ''override'')])"
    by (simp add: get_prop_def)
  from t c have "\<not> hasOwnProperty (own_props (fst (defaultOptions 10 ex_defaults ex_override))) ''c''"
    by blast
  with h b s p r d show ?thesis by simp
qed

text \<open>
  Claim C7, as stated, fails: the result does not always have exactly the keys of the
  defaults. For defaults with the own keys \<^verbatim>\<open>__proto__\<close> and \<^verbatim>\<open>a\<close> the assignment
  \<^verbatim>\<open>result["__proto__"] = "x"\<close> makes no property, and the result owns \<^verbatim>\<open>a\<close> alone.
  In the same way the clone of a value that has an own key \<^verbatim>\<open>__proto__\<close> inside lacks
  that key, so it is not structurally equal to the value.
\<close>

theorem defaultOptions_proto_counterexample:
  "object_keys ex_proto_defaults = [''__proto__'', ''a''] \<and>
   defaultOptions 0 ex_proto_defaults NUndefined = (NObj 0 None [(''a'', NStr ''d1'')], Suc 0) \<and>
   object_keys (own_props (fst (defaultOptions 0 ex_proto_defaults NUndefined))) = [''a''] \<and>
   \<not> hasOwnProperty (own_props (fst (defaultOptions 0 ex_proto_defaults NUndefined))) ''__proto__'' \<and>
   defaultOptions 10 [(''a'', ex_nested_proto)] NUndefined
     = (NObj 10 None [(''a'', NObj 11 None [(''z'', NNum 1)])], 12) \<and>
   erase (NObj 11 None [(''z'', NNum 1)]) \<noteq> erase ex_nested_proto"
  by (simp add: defaultOptions_def ex_proto_defaults_def ex_nested_proto_def object_keys_def
      get_prop_def hasOwnProperty_def)

section \<open>Properties of the pattern matcher\<close>

lemma map_throwing_Inr:
  "map_throwing f xs = Inr ys \<Longrightarrow> list_all2 (\<lambda>x y. f x = Inr y) xs ys"
  by (induction xs arbitrary: ys) (auto split: sum.splits)

lemma map_throwing_total:
  "\<forall>x \<in> set xs. \<exists>y. f x = Inr y \<Longrightarrow> \<exists>ys. map_throwing f xs = Inr ys"
  by (induction xs) (auto split: sum.splits)

lemma compile_item_total: "item \<noteq> MObject None \<Longrightarrow> \<exists>p. compile_item mm options item = Inr p"
  by (cases "(mm, options, item)" rule: compile_item.cases) auto

lemma compiled_some:
  assumes "list_all2 (\<lambda>x y. compile_item mm options x = Inr y) items ps"
  shows "list_ex (\<lambda>p. truthy (p [filename])) ps \<longleftrightarrow>
         (\<exists>item \<in> set items. item_matches mm options item filename)"
  using assms
  by (induction items ps rule: list_all2_induct) (auto simp: item_matches_def)

text \<open>
  Claim C8. For an empty pattern list \<^verbatim>\<open>filenameMatcher\<close> returns a predicate that is
  \<^verbatim>\<open>false\<close> on every filename. It returns a predicate whenever every item is a string, a
  function or a value with a \<^verbatim>\<open>test\<close> method, and the predicate it returns answers with a
  truthy value exactly when some item of the normalized list matches the filename.
\<close>

theorem filenameMatcher_is_disjunction:
  "(concat_match match = [] \<longrightarrow>
      (\<exists>m. filenameMatcher mm match options = Inr m \<and> (\<forall>filename. m filename = Bool False))) \<and>
   ((\<forall>item \<in> set (concat_match match). item \<noteq> MObject None) \<longrightarrow>
      (\<exists>m. filenameMatcher mm match options = Inr m)) \<and>
   (\<forall>m. filenameMatcher mm match options = Inr m \<longrightarrow>
      (\<forall>filename. truthy (m filename) \<longleftrightarrow>
         (\<exists>item \<in> set (concat_match match). item_matches mm options item filename)))"
proof (intro conjI impI allI)
  assume "concat_match match = []"
  then show "\<exists>m. filenameMatcher mm match options = Inr m \<and> (\<forall>filename. m filename = Bool False)"
    by (simp add: filenameMatcher_def)
next
  assume "\<forall>item \<in> set (concat_match match). item \<noteq> MObject None"
  then have "\<forall>item \<in> set (concat_match match). \<exists>p. compile_item mm options item = Inr p"
    using compile_item_total by blast
  from map_throwing_total [OF this]
  obtain ps where "map_throwing (compile_item mm options) (concat_match match) = Inr ps" ..
  then show "\<exists>m. filenameMatcher mm match options = Inr m"
    by (simp add: filenameMatcher_def Let_def)
next
  fix m filename
  assume m: "filenameMatcher mm match options = Inr m"
  let ?items = "concat_match match"
  show "truthy (m filename) \<longleftrightarrow> (\<exists>item \<in> set ?items. item_matches mm options item filename)"
  proof (cases "?items = []")
    case True
    with m show ?thesis by (auto simp: filenameMatcher_def)
  next
    case False
    with m obtain ps where ps: "map_throwing (compile_item mm options) ?items = Inr ps"
      by (auto simp: filenameMatcher_def Let_def split: sum.splits)
    from map_throwing_Inr [OF ps]
    have all2: "list_all2 (\<lambda>x y. compile_item mm options x = Inr y) ?items ps" .
    note some = compiled_some [OF all2, of filename]
    show ?thesis
    proof (cases "length ps = 1")
      case True
      then obtain p where p: "ps = [p]" by (cases ps) auto
      from m False ps p have "m = (\<lambda>item. p [item])"
        by (auto simp: filenameMatcher_def Let_def)
      with some p show ?thesis by simp
    next
      case len: False
      from m False ps len
      have "m = (\<lambda>filename. Bool (list_ex (\<lambda>singleMatch. truthy (singleMatch [filename])) ps))"
        by (auto simp: filenameMatcher_def Let_def)
      with some show ?thesis by simp
    qed
  qed
qed

text \<open>A glob and a function that never matches; and the empty list.\<close>

theorem filenameMatcher_witness:
  "concat_match (Multiple [MString ''a.txt'', MFunction ex_never]) = [MString ''a.txt'', MFunction ex_never] \<and>
   (\<exists>m. filenameMatcher ex_mm (Multiple [MString ''a.txt'', MFunction ex_never]) Undefined = Inr m \<and>
        truthy (m (Str ''a.txt'')) \<and> \<not> truthy (m (Str ''b.txt''))) \<and>
   concat_match (Multiple []) = [] \<and>
   (\<exists>m. filenameMatcher ex_mm (Multiple []) Undefined = Inr m \<and> m (Str ''a.txt'') = Bool False)"
  using filenameMatcher_is_disjunction [of "Multiple [MString ''a.txt'', MFunction ex_never]" ex_mm Undefined]
    filenameMatcher_is_disjunction [of "Multiple []" ex_mm Undefined]
  by (auto simp: item_matches_def ex_mm_def ex_never_def arg_at_def)

section \<open>Properties of the call adapter\<close>

text \<open>
  Claim C6. Given an argument list, \<^verbatim>\<open>callFunction\<close> appends the completion function
  exactly when the function declares more parameters than arguments were supplied;
  otherwise the function is applied to the supplied arguments and the promise follows
  its direct outcome. With the completion function appended, once the function calls
  it (before it returns or throws, or later after it returned anything at all), the
  first call decides: a truthy error rejects the promise with that error, otherwise the
  promise is resolved with the provided value, so it fulfills with a plain value.
\<close>

theorem callFunction_callback_convention:
  "(applied_to (callFunction (Some f) (Some as) fs t) = Some (as @ [ACallback])
      \<longleftrightarrow> length as < fn_length f) \<and>
   (\<not> length as < fn_length f \<longrightarrow>
      applied_to (callFunction (Some f) (Some as) fs t) = Some as \<and>
      promise_of (callFunction (Some f) (Some as) fs t) = settle_completion t (outcome (body f as fs))) \<and>
   (length as < fn_length f \<longrightarrow>
      (\<forall>d err result.
         first_callback (callbacks (body f (as @ [ACallback]) fs)) = Some (d, err, result) \<and>
         (d = 0 \<or> (\<exists>x. outcome (body f (as @ [ACallback]) fs) = Return x)) \<longrightarrow>
         promise_of (callFunction (Some f) (Some as) fs t) =
           (if truthy err then Settles (t + d) (Rejected err)
            else case result of
                   Plain v \<Rightarrow> Settles (t + d) (Fulfilled v)
                 | Thenable q \<Rightarrow> resolve_at (t + d) (Thenable q))))"
proof (intro conjI impI allI)
  show "applied_to (callFunction (Some f) (Some as) fs t) = Some (as @ [ACallback])
      \<longleftrightarrow> length as < fn_length f"
    by (simp add: callFunction_def Let_def)
next
  assume "\<not> length as < fn_length f"
  then show "applied_to (callFunction (Some f) (Some as) fs t) = Some as"
    and "promise_of (callFunction (Some f) (Some as) fs t) = settle_completion t (outcome (body f as fs))"
    by (simp_all add: callFunction_def Let_def)
next
  fix d err result
  assume mode: "length as < fn_length f"
    and cb: "first_callback (callbacks (body f (as @ [ACallback]) fs)) = Some (d, err, result) \<and>
         (d = 0 \<or> (\<exists>x. outcome (body f (as @ [ACallback]) fs) = Return x))"
  let ?b = "body f (as @ [ACallback]) fs"
  have "settle_callback t ?b = completion_fn (t + d) err result"
    using cb by (auto simp: settle_callback_def split: completion.splits)
  moreover have "promise_of (callFunction (Some f) (Some as) fs t) = settle_callback t ?b"
    using mode by (simp add: callFunction_def Let_def)
  ultimately show "promise_of (callFunction (Some f) (Some as) fs t) =
           (if truthy err then Settles (t + d) (Rejected err)
            else case result of
                   Plain v \<Rightarrow> Settles (t + d) (Fulfilled v)
                 | Thenable q \<Rightarrow> resolve_at (t + d) (Thenable q))"
    by (simp add: completion_fn_def split: resolution.splits)
qed

text \<open>\<^verbatim>\<open>(cb) => { cb(null, 7); return 5; }\<close> fulfills with 7; \<^verbatim>\<open>(cb) => cb("x")\<close> rejects with "x".\<close>

theorem callFunction_callback_witness:
  "length ([] :: arg list) < fn_length ex_cb_ok \<and>
   applied_to (callFunction (Some ex_cb_ok) (Some []) [] 3) = Some [ACallback] \<and>
   promise_of (callFunction (Some ex_cb_ok) (Some []) [] 3) = Settles 3 (Fulfilled (Num 7)) \<and>
   promise_of (callFunction (Some ex_cb_err) (Some []) [] 3) = Settles 3 (Rejected (Str ''x''))"
  using callFunction_callback_convention [of ex_cb_ok "[]" "[]" 3]
    callFunction_callback_convention [of ex_cb_err "[]" "[]" 3]
  by (simp add: ex_cb_ok_def ex_cb_err_def first_callback_def)

text \<open>
  Claim C10. With the argument list absent, whatever the number of parameters the
  function declares, it is applied to no arguments, no completion function among them,
  and the promise settles from the direct outcome: fulfilled with a returned plain
  value, following a returned thenable, rejected with a thrown error.
\<close>

theorem callFunction_without_args:
  "applied_to (callFunction (Some f) None fs t) = Some [] \<and>
   promise_of (callFunction (Some f) None fs t) =
     (case outcome (body f [] fs) of
        Return (Plain v) \<Rightarrow> Settles t (Fulfilled v)
      | Return (Thenable q) \<Rightarrow> resolve_at t (Thenable q)
      | Throw e \<Rightarrow> Settles t (Rejected e))"
  by (simp add: callFunction_def Let_def split: completion.splits resolution.splits)

text \<open>The three ways a call fails: a throw, a returned promise that rejects, an error
  handed to the completion function.\<close>

lemma callFunction_rejects:
  "\<not> length as < fn_length f \<Longrightarrow> outcome (body f as fs) = Throw e \<Longrightarrow>
     promise_of (callFunction (Some f) (Some as) fs t) = Settles t (Rejected e)"
  "\<not> length as < fn_length f \<Longrightarrow>
     outcome (body f as fs) = Return (Thenable (Settles s (Rejected e))) \<Longrightarrow>
     promise_of (callFunction (Some f) (Some as) fs t) = Settles (max t s) (Rejected e)"
  "length as < fn_length f \<Longrightarrow>
     first_callback (callbacks (body f (as @ [ACallback]) fs)) = Some (d, err, r) \<Longrightarrow>
     truthy err \<Longrightarrow> outcome (body f (as @ [ACallback]) fs) = Return x \<Longrightarrow>
     promise_of (callFunction (Some f) (Some as) fs t) = Settles (t + d) (Rejected err)"
  by (simp_all add: callFunction_def Let_def settle_callback_def completion_fn_def)

section \<open>Properties of promises and of the trace\<close>


lemma resolve_at_not_before: "not_before t (resolve_at t r)"
  by (cases "(t, r)" rule: resolve_at.cases) auto

lemma resolve_at_later: "not_before t p \<Longrightarrow> resolve_at t (Thenable p) = p"
  by (cases p) (auto simp: max_def)

lemma settle_completion_not_before: "not_before t (settle_completion t c)"
  by (cases c) (auto simp: resolve_at_not_before)

lemma not_before_mono: "not_before t p \<Longrightarrow> s \<le> t \<Longrightarrow> not_before s p"
  by (cases p) auto

lemma completion_fn_not_before: "s \<le> t \<Longrightarrow> not_before s (completion_fn t err result)"
  using resolve_at_not_before [of t result]
  by (auto simp: completion_fn_def intro: not_before_mono)

lemma settle_callback_not_before: "not_before t (settle_callback t b)"
  by (auto simp: settle_callback_def completion_fn_not_before split: option.splits completion.splits)

lemma callFunction_not_before: "not_before t (promise_of (callFunction fn args fs t))"
  by (auto simp: callFunction_def Let_def settle_callback_not_before settle_completion_not_before
      split: option.splits)

lemma invoke_not_before: "invoke h fn as t w = (p, w') \<Longrightarrow> not_before t p"
  using callFunction_not_before [of t fn "Some as" "files w"]
  by (auto simp: invoke_def Let_def)

lemma callFunction_None:
  "callFunction None args fs t = \<lparr>promise_of = Settles t (Fulfilled Undefined), files_of = fs, applied_to = None\<rparr>"
  by (simp add: callFunction_def)

lemma callFunction_Some_applied:
  "applied_to (callFunction (Some f) (Some as) fs t) =
     Some (if length as < fn_length f then as @ [ACallback] else as)"
  by (simp add: callFunction_def Let_def)

lemma invoke_None:
  "invoke h None as t w = (Settles t (Fulfilled Undefined), w)"
  by (simp add: invoke_def callFunction_None)

lemma invoke_Some:
  "invoke h (Some f) as t w = (p, w') \<Longrightarrow>
     trace w' = trace w @ [Invoked h (if length as < fn_length f then as @ [ACallback] else as) t p]"
  by (auto simp: invoke_def Let_def callFunction_Some_applied)


lemma calls_of_append: "calls_of h (xs @ ys) = calls_of h xs @ calls_of h ys"
  by (induction h xs rule: calls_of.induct) auto

lemma done_calls_append: "done_calls (xs @ ys) = done_calls xs @ done_calls ys"
  by (induction xs rule: done_calls.induct) auto

lemma calls_of_set: "(as, t, p) \<in> set (calls_of h tr) \<longleftrightarrow> Invoked h as t p \<in> set tr"
  by (induction h tr rule: calls_of.induct) auto

lemma done_calls_set: "(xs, t) \<in> set (done_calls tr) \<longleftrightarrow> Done xs t \<in> set tr"
  by (induction tr rule: done_calls.induct) auto


lemma map_filter_set: "y \<in> set (List.map_filter f xs) \<longleftrightarrow> (\<exists>x \<in> set xs. f x = Some y)"
  by (induction xs) (auto split: option.splits)

lemma map_filter_resolved:
  "y \<in> set (List.map_filter f (map (resolve_at t) rs)) \<longleftrightarrow> (\<exists>r \<in> set rs. f (resolve_at t r) = Some y)"
  by (simp add: map_filter_set)

lemma rejection_Some: "rejection p = Some (s, e) \<longleftrightarrow> p = Settles s (Rejected e)"
  by (cases "p" rule: rejection.cases) auto

lemma fulfillment_Some: "fulfillment p = Some (s, v) \<longleftrightarrow> p = Settles s (Fulfilled v)"
  by (cases "p" rule: fulfillment.cases) auto

lemma fold_max_ge: "(t::nat) \<le> fold max xs t"
  by (induction xs arbitrary: t) (auto intro: order_trans [OF max.cobounded2])

lemma fold_max_mem: "x \<in> set xs \<Longrightarrow> (x::nat) \<le> fold max xs t"
proof (induction xs arbitrary: t)
  case Nil
  then show ?case by simp
next
  case (Cons a xs)
  show ?case
  proof (cases "x = a")
    case True
    have "max a t \<le> fold max xs (max a t)" by (rule fold_max_ge)
    with True show ?thesis by simp
  next
    case False
    with Cons show ?thesis by simp
  qed
qed

lemma promise_all_Rejected:
  assumes "promise_all t rs = Settles s (Rejected e)"
  shows "\<exists>r \<in> set rs. resolve_at t r = Settles s (Rejected e)"
    and "\<forall>r \<in> set rs. \<forall>s' e'. resolve_at t r = Settles s' (Rejected e') \<longrightarrow> s \<le> s'"
proof -
  let ?ps = "map (resolve_at t) rs"
  let ?rj = "List.map_filter rejection ?ps"
  from assms have ne: "?rj \<noteq> []"
    by (auto simp: promise_all_def Let_def split: if_splits)
  with assms have am: "arg_min_list fst ?rj = (s, e)"
    by (auto simp: promise_all_def Let_def split: prod.splits)
  from arg_min_list_in [OF ne, of fst] am have "(s, e) \<in> set ?rj" by simp
  then show "\<exists>r \<in> set rs. resolve_at t r = Settles s (Rejected e)"
    by (auto simp: map_filter_resolved rejection_Some)
  show "\<forall>r \<in> set rs. \<forall>s' e'. resolve_at t r = Settles s' (Rejected e') \<longrightarrow> s \<le> s'"
  proof (intro ballI allI impI)
    fix r s' e'
    assume "r \<in> set rs" "resolve_at t r = Settles s' (Rejected e')"
    then have "(s', e') \<in> set ?rj"
      by (auto simp: map_filter_resolved rejection_Some)
    then have "s' \<in> fst ` set ?rj" by force
    then have "Min (fst ` set ?rj) \<le> s'" by (intro Min_le) auto
    with f_arg_min_list_f [OF ne, of fst] am show "s \<le> s'" by simp
  qed
qed

lemma promise_all_rejects:
  assumes "r \<in> set rs" "resolve_at t r = Settles s' (Rejected e')"
  shows "\<exists>s e. promise_all t rs = Settles s (Rejected e)"
proof -
  from assms have "(s', e') \<in> set (List.map_filter rejection (map (resolve_at t) rs))"
    by (auto simp: map_filter_resolved rejection_Some)
  then have "List.map_filter rejection (map (resolve_at t) rs) \<noteq> []" by auto
  then show ?thesis
    by (auto simp: promise_all_def Let_def split: prod.splits)
qed

lemma promise_all_Fulfilled:
  assumes "promise_all t rs = Settles s (Fulfilled x)"
  shows "\<forall>r \<in> set rs. \<exists>s' v. resolve_at t r = Settles s' (Fulfilled v) \<and> s' \<le> s"
    and "t \<le> s"
proof -
  let ?ps = "map (resolve_at t) rs"
  from assms have rj: "List.map_filter rejection ?ps = []"
    and nv: "\<not> list_ex (\<lambda>p. p = Never) ?ps"
    and s: "s = fold max (map fst (List.map_filter fulfillment ?ps)) t"
    by (auto simp: promise_all_def Let_def split: if_splits prod.splits)
  show "t \<le> s" unfolding s by (rule fold_max_ge)
  show "\<forall>r \<in> set rs. \<exists>s' v. resolve_at t r = Settles s' (Fulfilled v) \<and> s' \<le> s"
  proof
    fix r assume r: "r \<in> set rs"
    show "\<exists>s' v. resolve_at t r = Settles s' (Fulfilled v) \<and> s' \<le> s"
    proof (cases "resolve_at t r")
      case Never
      with r nv show ?thesis by (force simp: list_ex_iff)
    next
      case (Settles s' y)
      show ?thesis
      proof (cases y)
        case (Fulfilled v)
        with Settles r have "(s', v) \<in> set (List.map_filter fulfillment ?ps)"
          by (auto simp: map_filter_resolved fulfillment_Some)
        then have "s' \<in> set (map fst (List.map_filter fulfillment ?ps))" by force
        from fold_max_mem [OF this] s Settles Fulfilled show ?thesis by simp
      next
        case (Rejected e)
        with Settles r have "(s', e) \<in> set (List.map_filter rejection ?ps)"
          by (auto simp: map_filter_resolved rejection_Some)
        with rj show ?thesis by simp
      qed
    qed
  qed
qed

lemma promise_all_not_before: "not_before t (promise_all t rs)"
proof (cases "promise_all t rs")
  case Never
  then show ?thesis by simp
next
  case (Settles s y)
  show ?thesis
  proof (cases y)
    case (Fulfilled v)
    with Settles promise_all_Fulfilled(2) show ?thesis by simp
  next
    case (Rejected e)
    with Settles promise_all_Rejected(1) obtain r where "resolve_at t r = Settles s (Rejected e)"
      by blast
    with resolve_at_not_before [of t r] Settles show ?thesis by simp
  qed
qed

lemma middlewareFn_cases:
  "middlewareFn opts matcher fs metalsmith t0 =
    (case invoke Before (before opts) [AFiles, AVal metalsmith] t0 \<lparr>files = fs, trace = []\<rparr> of
       (p1, w1) \<Rightarrow>
         (case p1 of
            Never \<Rightarrow> (Never, w1)
          | Settles t1 (Rejected e) \<Rightarrow> finish e t1 w1
          | Settles t1 (Fulfilled v) \<Rightarrow>
              (case dispatch (each opts) metalsmith t1 (matched matcher (files w1)) w1 of
                 (ps, w2) \<Rightarrow>
                   (case promise_all t1 ps of
                      Never \<Rightarrow> (Never, w2)
                    | Settles t2 (Rejected e) \<Rightarrow> finish e t2 w2
                    | Settles t2 (Fulfilled x) \<Rightarrow>
                        (case invoke After (after opts) [AFiles, AVal metalsmith] t2 w2 of
                           (p3, w3) \<Rightarrow>
                             (case p3 of
                                Never \<Rightarrow> (Never, w3)
                              | Settles t3 (Rejected e) \<Rightarrow> finish e t3 w3
                              | Settles t3 (Fulfilled v) \<Rightarrow> finish v t3 w3))))))"
proof -
  obtain p1 w1 where i1: "invoke Before (before opts) [AFiles, AVal metalsmith] t0 \<lparr>files = fs, trace = []\<rparr> = (p1, w1)"
    by (cases "invoke Before (before opts) [AFiles, AVal metalsmith] t0 \<lparr>files = fs, trace = []\<rparr>")
  show ?thesis
  proof (cases p1)
    case Never
    with i1 show ?thesis by (simp add: middlewareFn_def)
  next
    case (Settles t1 y)
    show ?thesis
    proof (cases y)
      case (Rejected e)
      with i1 Settles show ?thesis
        by (simp add: middlewareFn_def finish_def done_handler_def)
    next
      case (Fulfilled v)
      obtain ps w2 where d: "dispatch (each opts) metalsmith t1 (matched matcher (files w1)) w1 = (ps, w2)"
        by (cases "dispatch (each opts) metalsmith t1 (matched matcher (files w1)) w1")
      have pa: "resolve_at t1 (Thenable (promise_all t1 ps)) = promise_all t1 ps"
        by (rule resolve_at_later) (rule promise_all_not_before)
      show ?thesis
      proof (cases "promise_all t1 ps")
        case Never
        with i1 Settles Fulfilled d pa show ?thesis
          by (simp add: middlewareFn_def)
      next
        case s2: (Settles t2 y2)
        show ?thesis
        proof (cases y2)
          case (Rejected e)
          with i1 Settles Fulfilled d pa s2 show ?thesis
            by (simp add: middlewareFn_def finish_def done_handler_def)
        next
          case f2: (Fulfilled x)
          obtain p3 w3 where i3: "invoke After (after opts) [AFiles, AVal metalsmith] t2 w2 = (p3, w3)"
            by (cases "invoke After (after opts) [AFiles, AVal metalsmith] t2 w2")
          have p3: "resolve_at t2 (Thenable p3) = p3"
            by (rule resolve_at_later) (rule invoke_not_before [OF i3])
          from i1 Settles Fulfilled d pa s2 f2 i3 p3 show ?thesis
            by (cases p3) (auto simp: middlewareFn_def finish_def done_handler_def split: settlement.splits)
        qed
      qed
    qed
  qed
qed

text \<open>What dispatch leaves: each events only, and the promises it hands to Promise.all.\<close>

lemma dispatch_events:
  "dispatch fn metalsmith t ks w = (rs, w') \<Longrightarrow>
   \<exists>evs. trace w' = trace w @ evs \<and>
     (\<forall>ev \<in> set evs. \<exists>as p. ev = Invoked Each as t p \<and> Thenable p \<in> set rs) \<and>
     (\<forall>r \<in> set rs. r = Plain Null \<or>
        (\<exists>p. r = Thenable p \<and> not_before t p \<and>
             (p = Settles t (Fulfilled Undefined) \<or> (\<exists>as. Invoked Each as t p \<in> set evs))))"
proof (induction ks arbitrary: w rs w')
  case Nil
  then show ?case by simp
next
  case (Cons k ks)
  show ?case
  proof (cases "map_of (files w) k")
    case None
    obtain ps w2 where d: "dispatch fn metalsmith t ks w = (ps, w2)"
      by (cases "dispatch fn metalsmith t ks w")
    with Cons.prems None have rs: "rs = Plain Null # ps" and w': "w' = w2" by auto
    from Cons.IH [OF d] obtain evs where evs: "trace w2 = trace w @ evs"
      "\<forall>ev \<in> set evs. \<exists>as p. ev = Invoked Each as t p \<and> Thenable p \<in> set ps"
      "\<forall>r \<in> set ps. r = Plain Null \<or>
        (\<exists>p. r = Thenable p \<and> not_before t p \<and>
             (p = Settles t (Fulfilled Undefined) \<or> (\<exists>as. Invoked Each as t p \<in> set evs)))"
      by blast
    show ?thesis
      apply (rule exI [of _ evs])
      using evs rs w' apply auto
      done
  next
    case (Some fr)
    let ?as = "[AVal (Str k), AVal (Obj fr), AFiles, AVal metalsmith]"
    obtain p w1 where i: "invoke Each fn ?as t w = (p, w1)"
      by (cases "invoke Each fn ?as t w")
    obtain ps w2 where d: "dispatch fn metalsmith t ks w1 = (ps, w2)"
      by (cases "dispatch fn metalsmith t ks w1")
    with Cons.prems Some i have rs: "rs = Thenable p # ps" and w': "w' = w2" by auto
    from Cons.IH [OF d] obtain evs where evs: "trace w2 = trace w1 @ evs"
      "\<forall>ev \<in> set evs. \<exists>as p. ev = Invoked Each as t p \<and> Thenable p \<in> set ps"
      "\<forall>r \<in> set ps. r = Plain Null \<or>
        (\<exists>p. r = Thenable p \<and> not_before t p \<and>
             (p = Settles t (Fulfilled Undefined) \<or> (\<exists>as. Invoked Each as t p \<in> set evs)))"
      by blast
    have nb: "not_before t p" by (rule invoke_not_before [OF i])
    show ?thesis
    proof (cases fn)
      case None
      with i have "p = Settles t (Fulfilled Undefined)" "w1 = w"
        by (simp_all add: invoke_None)
      with evs rs w' nb show ?thesis
        apply (intro exI [of _ evs])
        apply auto
        done
    next
      case (Some f)
      from invoke_Some [OF i [unfolded Some]]
      obtain as' where as': "trace w1 = trace w @ [Invoked Each as' t p]" by blast
      show ?thesis
        apply (rule exI [of _ "Invoked Each as' t p # evs"])
        using evs rs w' nb as' apply (intro conjI)
          apply simp
         apply auto[1]
        apply (intro ballI)
        subgoal for r
          apply (cases "r = Thenable p")
           apply (auto)[1]
          apply simp
          apply (drule bspec, assumption)
          apply auto
          done
        done
    qed
  qed
qed

lemma invoke_calls:
  assumes "invoke h fn as t w = (p, w')"
  shows "done_calls (trace w') = done_calls (trace w)"
    and "h' \<noteq> h \<Longrightarrow> calls_of h' (trace w') = calls_of h' (trace w)"
    and "calls_of h (trace w') = calls_of h (trace w) \<or>
         (\<exists>as'. calls_of h (trace w') = calls_of h (trace w) @ [(as', t, p)])"
proof -
  show "done_calls (trace w') = done_calls (trace w)"
    using assms invoke_Some [of h _ as t w p w'] invoke_None [of h as t w]
    by (cases fn) (auto simp: done_calls_append)
  show "h' \<noteq> h \<Longrightarrow> calls_of h' (trace w') = calls_of h' (trace w)"
    using assms invoke_Some [of h _ as t w p w'] invoke_None [of h as t w]
    by (cases fn) (auto simp: calls_of_append)
  show "calls_of h (trace w') = calls_of h (trace w) \<or>
         (\<exists>as'. calls_of h (trace w') = calls_of h (trace w) @ [(as', t, p)])"
    using assms invoke_Some [of h _ as t w p w'] invoke_None [of h as t w]
    by (cases fn) (auto simp: calls_of_append)
qed

lemma dispatch_calls:
  assumes "dispatch fn metalsmith t ks w = (rs, w')"
  shows "done_calls (trace w') = done_calls (trace w)"
    and "h \<noteq> Each \<Longrightarrow> calls_of h (trace w') = calls_of h (trace w)"
    and "\<exists>cs. calls_of Each (trace w') = calls_of Each (trace w) @ cs \<and>
           (\<forall>c \<in> set cs. \<exists>as p. c = (as, t, p) \<and> Thenable p \<in> set rs) \<and>
           (\<forall>r \<in> set rs. r = Plain Null \<or>
              (\<exists>p. r = Thenable p \<and> not_before t p \<and>
                 (p = Settles t (Fulfilled Undefined) \<or> (\<exists>as. (as, t, p) \<in> set cs))))"
proof -
  from dispatch_events [OF assms] obtain evs where evs: "trace w' = trace w @ evs"
    "\<forall>ev \<in> set evs. \<exists>as p. ev = Invoked Each as t p \<and> Thenable p \<in> set rs"
    "\<forall>r \<in> set rs. r = Plain Null \<or>
        (\<exists>p. r = Thenable p \<and> not_before t p \<and>
             (p = Settles t (Fulfilled Undefined) \<or> (\<exists>as. Invoked Each as t p \<in> set evs)))"
    by blast
  have d: "done_calls evs = []"
  proof (rule ccontr)
    assume "done_calls evs \<noteq> []"
    then obtain xs s where "(xs, s) \<in> set (done_calls evs)" by (cases "done_calls evs") auto
    then have "Done xs s \<in> set evs" by (simp add: done_calls_set)
    with evs(2) show False by auto
  qed
  show "done_calls (trace w') = done_calls (trace w)"
    by (simp add: evs(1) done_calls_append d)
  show "calls_of h (trace w') = calls_of h (trace w)" if "h \<noteq> Each"
  proof -
    have "calls_of h evs = []"
    proof (rule ccontr)
      assume "calls_of h evs \<noteq> []"
      then obtain as s p where "(as, s, p) \<in> set (calls_of h evs)" by (cases "calls_of h evs") auto
      then have "Invoked h as s p \<in> set evs" by (simp add: calls_of_set)
      with evs(2) that show False by auto
    qed
    then show ?thesis by (simp add: evs(1) calls_of_append)
  qed
  show "\<exists>cs. calls_of Each (trace w') = calls_of Each (trace w) @ cs \<and>
           (\<forall>c \<in> set cs. \<exists>as p. c = (as, t, p) \<and> Thenable p \<in> set rs) \<and>
           (\<forall>r \<in> set rs. r = Plain Null \<or>
              (\<exists>p. r = Thenable p \<and> not_before t p \<and>
                 (p = Settles t (Fulfilled Undefined) \<or> (\<exists>as. (as, t, p) \<in> set cs))))"
  proof (intro exI [of _ "calls_of Each evs"] conjI ballI)
    show "calls_of Each (trace w') = calls_of Each (trace w) @ calls_of Each evs"
      by (simp add: evs(1) calls_of_append)
  next
    fix c assume "c \<in> set (calls_of Each evs)"
    moreover obtain as s p where "c = (as, s, p)" by (cases c)
    ultimately have c: "c = (as, s, p)" "Invoked Each as s p \<in> set evs"
      by (simp_all add: calls_of_set)
    with evs(2) show "\<exists>as p. c = (as, t, p) \<and> Thenable p \<in> set rs" by auto
  next
    fix r assume "r \<in> set rs"
    with evs(3) show "r = Plain Null \<or>
              (\<exists>p. r = Thenable p \<and> not_before t p \<and>
                 (p = Settles t (Fulfilled Undefined) \<or> (\<exists>as. (as, t, p) \<in> set (calls_of Each evs))))"
      by (simp add: calls_of_set)
  qed
qed

lemma finish_calls:
  "calls_of h (trace (snd (finish x t w))) = calls_of h (trace w)"
  "done_calls (trace (snd (finish x t w))) = done_calls (trace w) @ [([x], t)]"
  by (simp_all add: finish_def calls_of_append done_calls_append)

text \<open>The seven ways a run can go.\<close>

lemma middlewareFn_run:
  fixes opts matcher fs metalsmith t0
  defines "start \<equiv> invoke Before (before opts) [AFiles, AVal metalsmith] t0 \<lparr>files = fs, trace = []\<rparr>"
  obtains
    (BeforePending) w1 where
      "start = (Never, w1)"
      "middlewareFn opts matcher fs metalsmith t0 = (Never, w1)"
  | (BeforeRejected) w1 t1 e where
      "start = (Settles t1 (Rejected e), w1)"
      "middlewareFn opts matcher fs metalsmith t0 = finish e t1 w1"
  | (EachPending) w1 t1 v rs w2 where
      "start = (Settles t1 (Fulfilled v), w1)"
      "dispatch (each opts) metalsmith t1 (matched matcher (files w1)) w1 = (rs, w2)"
      "promise_all t1 rs = Never"
      "middlewareFn opts matcher fs metalsmith t0 = (Never, w2)"
  | (EachRejected) w1 t1 v rs w2 t2 e where
      "start = (Settles t1 (Fulfilled v), w1)"
      "dispatch (each opts) metalsmith t1 (matched matcher (files w1)) w1 = (rs, w2)"
      "promise_all t1 rs = Settles t2 (Rejected e)"
      "middlewareFn opts matcher fs metalsmith t0 = finish e t2 w2"
  | (AfterPending) w1 t1 v rs w2 t2 x w3 where
      "start = (Settles t1 (Fulfilled v), w1)"
      "dispatch (each opts) metalsmith t1 (matched matcher (files w1)) w1 = (rs, w2)"
      "promise_all t1 rs = Settles t2 (Fulfilled x)"
      "invoke After (after opts) [AFiles, AVal metalsmith] t2 w2 = (Never, w3)"
      "middlewareFn opts matcher fs metalsmith t0 = (Never, w3)"
  | (AfterSettled) w1 t1 v rs w2 t2 x w3 t3 y where
      "start = (Settles t1 (Fulfilled v), w1)"
      "dispatch (each opts) metalsmith t1 (matched matcher (files w1)) w1 = (rs, w2)"
      "promise_all t1 rs = Settles t2 (Fulfilled x)"
      "invoke After (after opts) [AFiles, AVal metalsmith] t2 w2 = (Settles t3 y, w3)"
      "middlewareFn opts matcher fs metalsmith t0 =
         finish (case y of Fulfilled a \<Rightarrow> a | Rejected a \<Rightarrow> a) t3 w3"
proof -
  obtain p1 w1 where i1: "start = (p1, w1)" by (cases start)
  note mc = middlewareFn_cases [of opts matcher fs metalsmith t0, folded start_def]
  show ?thesis
  proof (cases p1)
    case Never
    with i1 mc show ?thesis by (intro BeforePending [of w1]) auto
  next
    case (Settles t1 y1)
    show ?thesis
    proof (cases y1)
      case (Rejected e)
      with i1 mc Settles show ?thesis by (intro BeforeRejected [of t1 e w1]) auto
    next
      case (Fulfilled v)
      obtain rs w2 where d: "dispatch (each opts) metalsmith t1 (matched matcher (files w1)) w1 = (rs, w2)"
        by (cases "dispatch (each opts) metalsmith t1 (matched matcher (files w1)) w1")
      show ?thesis
      proof (cases "promise_all t1 rs")
        case Never
        with i1 mc Settles Fulfilled d show ?thesis
          by (intro EachPending [of t1 v w1 rs w2]) auto
      next
        case s2: (Settles t2 y2)
        show ?thesis
        proof (cases y2)
          case (Rejected e)
          with i1 mc Settles Fulfilled d s2 show ?thesis
            by (intro EachRejected [of t1 v w1 rs w2 t2 e]) auto
        next
          case f2: (Fulfilled x)
          obtain p3 w3 where i3: "invoke After (after opts) [AFiles, AVal metalsmith] t2 w2 = (p3, w3)"
            by (cases "invoke After (after opts) [AFiles, AVal metalsmith] t2 w2")
          show ?thesis
          proof (cases p3)
            case Never
            with i1 mc Settles Fulfilled d s2 f2 i3 show ?thesis
              by (intro AfterPending [of t1 v w1 rs w2 t2 x w3]) auto
          next
            case s3: (Settles t3 y)
            with i1 mc Settles Fulfilled d s2 f2 i3 show ?thesis
              by (intro AfterSettled [of t1 v w1 rs w2 t2 x t3 y w3]) (auto split: settlement.splits)
          qed
        qed
      qed
    qed
  qed
qed

lemma start_calls:
  assumes "invoke Before fn as t0 \<lparr>files = fs, trace = []\<rparr> = (p1, w1)"
  shows "done_calls (trace w1) = []"
    and "calls_of Each (trace w1) = []"
    and "calls_of After (trace w1) = []"
    and "calls_of Before (trace w1) = [] \<or> (\<exists>as'. calls_of Before (trace w1) = [(as', t0, p1)])"
  using invoke_calls(1) [OF assms] invoke_calls(2) [OF assms, of Each]
    invoke_calls(2) [OF assms, of After] invoke_calls(3) [OF assms]
  by simp_all

lemma after_calls:
  assumes "invoke After fn as t w = (p, w')"
  shows "done_calls (trace w') = done_calls (trace w)"
    and "calls_of Each (trace w') = calls_of Each (trace w)"
    and "calls_of Before (trace w') = calls_of Before (trace w)"
  using invoke_calls(1) [OF assms] invoke_calls(2) [OF assms, of Each]
    invoke_calls(2) [OF assms, of Before]
  by simp_all

lemma each_phase:
  assumes d: "dispatch fn metalsmith t ks w = (rs, w')" and e: "calls_of Each (trace w) = []"
  shows "(as, t', Settles s (Rejected e)) \<in> set (calls_of Each (trace w')) \<Longrightarrow>
           \<exists>s' e'. promise_all t rs = Settles s' (Rejected e') \<and> s' \<le> s"
    and "promise_all t rs = Settles s (Rejected e) \<Longrightarrow>
           \<exists>as. (as, t, Settles s (Rejected e)) \<in> set (calls_of Each (trace w'))"
    and "promise_all t rs = Settles s (Fulfilled x) \<Longrightarrow>
           \<forall>c \<in> set (calls_of Each (trace w')). \<exists>as t' s' v. c = (as, t', Settles s' (Fulfilled v)) \<and> s' \<le> s"
proof -
  from dispatch_calls(3) [OF d] e obtain cs where cs: "calls_of Each (trace w') = cs"
    and in_rs: "\<And>c. c \<in> set cs \<Longrightarrow> \<exists>as p. c = (as, t, p) \<and> Thenable p \<in> set rs"
    and in_cs: "\<And>r. r \<in> set rs \<Longrightarrow> r = Plain Null \<or>
              (\<exists>p. r = Thenable p \<and> not_before t p \<and>
                 (p = Settles t (Fulfilled Undefined) \<or> (\<exists>as. (as, t, p) \<in> set cs)))"
    by auto
  have same: "resolve_at t (Thenable p) = p" if "Thenable p \<in> set rs" for p
    using in_cs [OF that] by (auto intro: resolve_at_later)
  {
    assume "(as, t', Settles s (Rejected e)) \<in> set (calls_of Each (trace w'))"
    with cs in_rs have r: "Thenable (Settles s (Rejected e)) \<in> set rs" by force
    from promise_all_rejects [OF r same [OF r]] obtain s' e'
      where pa: "promise_all t rs = Settles s' (Rejected e')" by blast
    from promise_all_Rejected(2) [OF pa] r same [OF r] have "s' \<le> s" by blast
    with pa show "\<exists>s' e'. promise_all t rs = Settles s' (Rejected e') \<and> s' \<le> s" by blast
  }
  {
    assume pa: "promise_all t rs = Settles s (Rejected e)"
    from promise_all_Rejected(1) [OF pa] obtain r where r: "r \<in> set rs"
      "resolve_at t r = Settles s (Rejected e)" by blast
    from in_cs [OF r(1)] r(2) obtain p where p: "r = Thenable p" "not_before t p"
      "p = Settles t (Fulfilled Undefined) \<or> (\<exists>as. (as, t, p) \<in> set cs)"
      by auto
    from r(2) p(1,2) have "p = Settles s (Rejected e)" by (simp add: resolve_at_later)
    with p(3) cs show "\<exists>as. (as, t, Settles s (Rejected e)) \<in> set (calls_of Each (trace w'))"
      by auto
  }
  {
    assume pa: "promise_all t rs = Settles s (Fulfilled x)"
    show "\<forall>c \<in> set (calls_of Each (trace w')). \<exists>as t' s' v. c = (as, t', Settles s' (Fulfilled v)) \<and> s' \<le> s"
    proof
      fix c assume "c \<in> set (calls_of Each (trace w'))"
      with cs in_rs obtain as p where c: "c = (as, t, p)" "Thenable p \<in> set rs" by blast
      from promise_all_Fulfilled(1) [OF pa] c(2) same [OF c(2)]
      obtain s' v where "p = Settles s' (Fulfilled v)" "s' \<le> s" by force
      with c(1) show "\<exists>as t' s' v. c = (as, t', Settles s' (Fulfilled v)) \<and> s' \<le> s" by blast
    qed
  }
qed







text \<open>
  \<^verbatim>\<open>done\<close> is called once, at the instant the chain settles, and not at all when the
  chain never settles.
\<close>

lemma done_called_once:
  "(case fst (middlewareFn opts matcher fs metalsmith t0) of
      Never \<Rightarrow> done_calls (trace (snd (middlewareFn opts matcher fs metalsmith t0))) = []
    | Settles t x \<Rightarrow>
        (\<exists>v. done_calls (trace (snd (middlewareFn opts matcher fs metalsmith t0))) = [([v], t)]))"
proof (cases rule: middlewareFn_run [of opts metalsmith t0 fs matcher])
  case (BeforePending w1)
  with start_calls(1) [OF BeforePending(1)] show ?thesis by simp
next
  case (BeforeRejected w1 t1 e)
  with start_calls(1) [OF BeforeRejected(1)] show ?thesis
    by (simp add: finish_def done_calls_append)
next
  case (EachPending w1 t1 v rs w2)
  with start_calls(1) [OF EachPending(1)] dispatch_calls(1) [OF EachPending(2)]
  show ?thesis by simp
next
  case (EachRejected w1 t1 v rs w2 t2 e)
  with start_calls(1) [OF EachRejected(1)] dispatch_calls(1) [OF EachRejected(2)]
  show ?thesis by (simp add: finish_def done_calls_append)
next
  case (AfterPending w1 t1 v rs w2 t2 x w3)
  with start_calls(1) [OF AfterPending(1)] dispatch_calls(1) [OF AfterPending(2)]
    after_calls(1) [OF AfterPending(4)]
  show ?thesis by simp
next
  case (AfterSettled w1 t1 v rs w2 t2 x w3 t3 y)
  with start_calls(1) [OF AfterSettled(1)] dispatch_calls(1) [OF AfterSettled(2)]
    after_calls(1) [OF AfterSettled(4)]
  show ?thesis by (simp add: finish_def done_calls_append)
qed

lemmas run_simps = middlewareFn_def invoke_def callFunction_def Let_def matched_def object_keys_def
  promise_all_def done_handler_def noop_def match_all_def

section \<open>Properties of the middleware function\<close>

text \<open>
  Claim C4. When the call of the \<^verbatim>\<open>before\<close> hook fails (the promise \<^verbatim>\<open>callFunction\<close>
  returned for it is rejected, whether the hook threw, returned a promise that rejects,
  or called its completion function with a truthy error), no \<^verbatim>\<open>each\<close> call and no
  \<^verbatim>\<open>after\<close> call is made, and \<^verbatim>\<open>done\<close> is called once, with that error as its only
  argument, at the instant of the failure.
\<close>

theorem before_failure_skips_each_and_after:
  assumes "(as, t, Settles s (Rejected e)) \<in>
             set (calls_of Before (trace (snd (middlewareFn opts matcher fs metalsmith t0))))"
  shows "calls_of Each (trace (snd (middlewareFn opts matcher fs metalsmith t0))) = [] \<and>
         calls_of After (trace (snd (middlewareFn opts matcher fs metalsmith t0))) = [] \<and>
         done_calls (trace (snd (middlewareFn opts matcher fs metalsmith t0))) = [([e], s)]"
proof (cases rule: middlewareFn_run [of opts metalsmith t0 fs matcher])
  case (BeforePending w1)
  with assms start_calls [OF BeforePending(1)] show ?thesis by auto
next
  case (BeforeRejected w1 t1 e')
  with assms start_calls [OF BeforeRejected(1)] show ?thesis
    by (auto simp: finish_calls)
next
  case (EachPending w1 t1 v rs w2)
  with assms start_calls [OF EachPending(1)] dispatch_calls(2) [OF EachPending(2), of Before]
  show ?thesis by auto
next
  case (EachRejected w1 t1 v rs w2 t2 e')
  with assms start_calls [OF EachRejected(1)] dispatch_calls(2) [OF EachRejected(2), of Before]
  show ?thesis by (auto simp: finish_calls)
next
  case (AfterPending w1 t1 v rs w2 t2 x w3)
  with assms start_calls [OF AfterPending(1)] dispatch_calls(2) [OF AfterPending(2), of Before]
    after_calls [OF AfterPending(4)]
  show ?thesis by auto
next
  case (AfterSettled w1 t1 v rs w2 t2 x w3 t3 y)
  with assms start_calls [OF AfterSettled(1)] dispatch_calls(2) [OF AfterSettled(2), of Before]
    after_calls [OF AfterSettled(4)]
  show ?thesis by (auto simp: finish_calls)
qed
text \<open>
  A \<^verbatim>\<open>before\<close> hook that throws "bad": the run calls \<^verbatim>\<open>done("bad")\<close> and nothing else.
\<close>

theorem before_failure_witness:
  "([AFiles, AVal Undefined], 0, Settles 0 (Rejected (Str ''bad''))) \<in>
      set (calls_of Before (trace (snd (middlewareFn ex_opts_throw match_all ex_files Undefined 0)))) \<and>
   calls_of Each (trace (snd (middlewareFn ex_opts_throw match_all ex_files Undefined 0))) = [] \<and>
   calls_of After (trace (snd (middlewareFn ex_opts_throw match_all ex_files Undefined 0))) = [] \<and>
   done_calls (trace (snd (middlewareFn ex_opts_throw match_all ex_files Undefined 0))) = [([Str ''bad''], 0)]"
proof -
  have h: "([AFiles, AVal Undefined], 0, Settles 0 (Rejected (Str ''bad''))) \<in>
      set (calls_of Before (trace (snd (middlewareFn ex_opts_throw match_all ex_files Undefined 0))))"
    by (simp add: run_simps ex_opts_throw_def ex_throw_def ex_files_def)
  from before_failure_skips_each_and_after [OF h] h show ?thesis by simp
qed

text \<open>
  Claim C3. When the promise of at least one \<^verbatim>\<open>each\<close> call is rejected, the \<^verbatim>\<open>after\<close>
  hook is not called, and \<^verbatim>\<open>done\<close> is called once, with one argument: the error of an
  \<^verbatim>\<open>each\<close> call whose rejection is the earliest of all.
\<close>

theorem each_failure_skips_after:
  assumes "(as, t, Settles s (Rejected e)) \<in>
             set (calls_of Each (trace (snd (middlewareFn opts matcher fs metalsmith t0))))"
  shows "calls_of After (trace (snd (middlewareFn opts matcher fs metalsmith t0))) = [] \<and>
         (\<exists>as' t' s' e'.
            done_calls (trace (snd (middlewareFn opts matcher fs metalsmith t0))) = [([e'], s')] \<and>
            (as', t', Settles s' (Rejected e')) \<in>
               set (calls_of Each (trace (snd (middlewareFn opts matcher fs metalsmith t0)))) \<and>
            (\<forall>as'' t'' s'' e''.
               (as'', t'', Settles s'' (Rejected e'')) \<in>
                  set (calls_of Each (trace (snd (middlewareFn opts matcher fs metalsmith t0))))
               \<longrightarrow> s' \<le> s''))"
proof (cases rule: middlewareFn_run [of opts metalsmith t0 fs matcher])
  case (BeforePending w1)
  with assms start_calls [OF BeforePending(1)] show ?thesis by auto
next
  case (BeforeRejected w1 t1 e')
  with assms start_calls [OF BeforeRejected(1)] show ?thesis
    by (auto simp: finish_calls)
next
  case (EachPending w1 t1 v rs w2)
  note ep = each_phase [OF EachPending(2) start_calls(2) [OF EachPending(1)]]
  from assms EachPending(4) ep(1) [of as t s e] EachPending(3) show ?thesis by auto
next
  case (EachRejected w1 t1 v rs w2 t2 e')
  note sc = start_calls [OF EachRejected(1)]
  note dc = dispatch_calls(1) [OF EachRejected(2)] dispatch_calls(2) [OF EachRejected(2), of After]
  note ep = each_phase [OF EachRejected(2) sc(2)]
  have fin: "calls_of Each (trace (snd (middlewareFn opts matcher fs metalsmith t0))) = calls_of Each (trace w2)"
    "calls_of After (trace (snd (middlewareFn opts matcher fs metalsmith t0))) = []"
    "done_calls (trace (snd (middlewareFn opts matcher fs metalsmith t0))) = [([e'], t2)]"
    using EachRejected(4) sc dc by (simp_all add: finish_calls)
  from ep(2) [OF EachRejected(3)] obtain as' where
    first: "(as', t1, Settles t2 (Rejected e')) \<in> set (calls_of Each (trace w2))" by blast
  have least: "t2 \<le> s''" if "(as'', t'', Settles s'' (Rejected e'')) \<in> set (calls_of Each (trace w2))"
    for as'' t'' s'' e''
    using ep(1) [OF that] EachRejected(3) by auto
  show ?thesis
    unfolding fin using first least by blast
next
  case (AfterPending w1 t1 v rs w2 t2 x w3)
  note ep = each_phase [OF AfterPending(2) start_calls(2) [OF AfterPending(1)]]
  from assms AfterPending(5) after_calls(2) [OF AfterPending(4)] ep(1) [of as t s e] AfterPending(3)
  show ?thesis by auto
next
  case (AfterSettled w1 t1 v rs w2 t2 x w3 t3 y)
  note ep = each_phase [OF AfterSettled(2) start_calls(2) [OF AfterSettled(1)]]
  from assms AfterSettled(5) after_calls(2) [OF AfterSettled(4)] ep(1) [of as t s e] AfterSettled(3)
  show ?thesis by (auto simp: finish_calls)
qed
text \<open>
  Two files, the \<^verbatim>\<open>each\<close> call for the first rejects with "boom" at instant 1.
\<close>

theorem each_failure_witness:
  "([AVal (Str ''a.txt''), AVal (Obj [(''mode'', Str ''0644'')]), AFiles, AVal Undefined], 0,
      Settles 1 (Rejected (Str ''boom''))) \<in>
      set (calls_of Each (trace (snd (middlewareFn ex_opts_mixed match_all ex_files Undefined 0)))) \<and>
   calls_of After (trace (snd (middlewareFn ex_opts_mixed match_all ex_files Undefined 0))) = [] \<and>
   (\<exists>e' s'. done_calls (trace (snd (middlewareFn ex_opts_mixed match_all ex_files Undefined 0))) = [([e'], s')])"
proof -
  have h: "([AVal (Str ''a.txt''), AVal (Obj [(''mode'', Str ''0644'')]), AFiles, AVal Undefined], 0,
      Settles 1 (Rejected (Str ''boom''))) \<in>
      set (calls_of Each (trace (snd (middlewareFn ex_opts_mixed match_all ex_files Undefined 0))))"
    by (simp add: run_simps ex_opts_mixed_def ex_each_mixed_def ex_files_def)
  from each_failure_skips_after [OF h] h show ?thesis by blast
qed

text \<open>
  Claim C2, as stated, fails: \<^verbatim>\<open>Promise.all\<close> rejects with the first rejection. In the
  run below the \<^verbatim>\<open>each\<close> call for \<^verbatim>\<open>a.txt\<close> rejects at instant 1 and \<^verbatim>\<open>done("boom")\<close> is
  called at instant 1, while the \<^verbatim>\<open>each\<close> call for \<^verbatim>\<open>b.txt\<close>, started with it, settles only
  at instant 5.
\<close>

theorem completion_not_waiting_counterexample:
  "done_calls (trace (snd (middlewareFn ex_opts_mixed match_all ex_files Undefined 0)))
     = [([Str ''boom''], 1)] \<and>
   map (snd \<circ> snd) (calls_of Each (trace (snd (middlewareFn ex_opts_mixed match_all ex_files Undefined 0))))
     = [Settles 1 (Rejected (Str ''boom'')), Settles 5 (Fulfilled Undefined)] \<and>
   \<not> waits_for_each (trace (snd (middlewareFn ex_opts_mixed match_all ex_files Undefined 0)))"
  by (simp add: run_simps ex_opts_mixed_def ex_each_mixed_def ex_files_def waits_for_each_def)

text \<open>
  Claim C2, amended. \<^verbatim>\<open>done\<close> is not called before every started \<^verbatim>\<open>each\<close> call has
  fulfilled, unless a started \<^verbatim>\<open>each\<close> call has failed: then \<^verbatim>\<open>done\<close> is called with
  that error at the instant of the earliest failure, whether or not the other started
  calls have settled.
\<close>

theorem completion_waits_unless_failure:
  "\<forall>d \<in> set (done_calls (trace (snd (middlewareFn opts matcher fs metalsmith t0)))).
     (\<forall>c \<in> set (calls_of Each (trace (snd (middlewareFn opts matcher fs metalsmith t0)))).
        \<exists>as t s v. c = (as, t, Settles s (Fulfilled v)) \<and> s \<le> snd d) \<or>
     (\<exists>as t e.
        (as, t, Settles (snd d) (Rejected e)) \<in>
           set (calls_of Each (trace (snd (middlewareFn opts matcher fs metalsmith t0)))) \<and>
        fst d = [e] \<and>
        (\<forall>as' t' s' e'.
           (as', t', Settles s' (Rejected e')) \<in>
              set (calls_of Each (trace (snd (middlewareFn opts matcher fs metalsmith t0))))
           \<longrightarrow> snd d \<le> s'))"
proof (cases rule: middlewareFn_run [of opts metalsmith t0 fs matcher])
  case (BeforePending w1)
  with start_calls [OF BeforePending(1)] show ?thesis by auto
next
  case (BeforeRejected w1 t1 e')
  with start_calls [OF BeforeRejected(1)] show ?thesis
    by (auto simp: finish_calls)
next
  case (EachPending w1 t1 v rs w2)
  with start_calls(1) [OF EachPending(1)] dispatch_calls(1) [OF EachPending(2)]
  show ?thesis by auto
next
  case (EachRejected w1 t1 v rs w2 t2 e')
  note sc = start_calls [OF EachRejected(1)]
  note dc = dispatch_calls(1) [OF EachRejected(2)]
  note ep = each_phase [OF EachRejected(2) sc(2)]
  have fin: "calls_of Each (trace (snd (middlewareFn opts matcher fs metalsmith t0))) = calls_of Each (trace w2)"
    "done_calls (trace (snd (middlewareFn opts matcher fs metalsmith t0))) = [([e'], t2)]"
    using EachRejected(4) sc dc by (simp_all add: finish_calls)
  from ep(2) [OF EachRejected(3)] obtain as' where
    first: "(as', t1, Settles t2 (Rejected e')) \<in> set (calls_of Each (trace w2))" by blast
  have least: "t2 \<le> s''" if "(as'', t'', Settles s'' (Rejected e'')) \<in> set (calls_of Each (trace w2))"
    for as'' t'' s'' e''
    using ep(1) [OF that] EachRejected(3) by auto
  show ?thesis
    unfolding fin using first least by auto
next
  case (AfterPending w1 t1 v rs w2 t2 x w3)
  with start_calls(1) [OF AfterPending(1)] dispatch_calls(1) [OF AfterPending(2)]
    after_calls(1) [OF AfterPending(4)]
  show ?thesis by auto
next
  case (AfterSettled w1 t1 v rs w2 t2 x w3 t3 y)
  note sc = start_calls [OF AfterSettled(1)]
  note dc = dispatch_calls(1) [OF AfterSettled(2)]
  note ac = after_calls [OF AfterSettled(4)]
  note ep = each_phase(3) [OF AfterSettled(2) sc(2) AfterSettled(3)]
  have t23: "t2 \<le> t3" using invoke_not_before [OF AfterSettled(4)] by simp
  have fin: "calls_of Each (trace (snd (middlewareFn opts matcher fs metalsmith t0))) = calls_of Each (trace w2)"
    "done_calls (trace (snd (middlewareFn opts matcher fs metalsmith t0))) =
       [([case y of Fulfilled a \<Rightarrow> a | Rejected a \<Rightarrow> a], t3)]"
    using AfterSettled(5) sc dc ac by (simp_all add: finish_calls)
  have "\<forall>c \<in> set (calls_of Each (trace w2)). \<exists>as t s v. c = (as, t, Settles s (Fulfilled v)) \<and> s \<le> t3"
  proof
    fix c assume "c \<in> set (calls_of Each (trace w2))"
    with ep obtain as t s v where "c = (as, t, Settles s (Fulfilled v))" "s \<le> t2" by blast
    with t23 show "\<exists>as t s v. c = (as, t, Settles s (Fulfilled v)) \<and> s \<le> t3" by auto
  qed
  then show ?thesis unfolding fin by simp
qed

text \<open>
  The run of the counterexample, read through the amended statement: the call of
  \<^verbatim>\<open>done\<close> at instant 1 is the one the failure of an \<^verbatim>\<open>each\<close> call at instant 1 allows.
\<close>

theorem completion_waits_unless_failure_witness:
  "([Str ''boom''], 1) \<in> set (done_calls (trace (snd (middlewareFn ex_opts_mixed match_all ex_files Undefined 0)))) \<and>
   (\<exists>as t e. (as, t, Settles 1 (Rejected e)) \<in>
       set (calls_of Each (trace (snd (middlewareFn ex_opts_mixed match_all ex_files Undefined 0)))) \<and>
       [Str ''boom''] = [e])"
proof -
  have d: "done_calls (trace (snd (middlewareFn ex_opts_mixed match_all ex_files Undefined 0)))
     = [([Str ''boom''], 1)]"
    by (simp add: run_simps ex_opts_mixed_def ex_each_mixed_def ex_files_def)
  have c: "map (snd \<circ> snd) (calls_of Each (trace (snd (middlewareFn ex_opts_mixed match_all ex_files Undefined 0))))
     = [Settles 1 (Rejected (Str ''boom'')), Settles 5 (Fulfilled Undefined)]"
    by (simp add: run_simps ex_opts_mixed_def ex_each_mixed_def ex_files_def)
  have late: "\<not> (\<forall>c \<in> set (calls_of Each (trace (snd (middlewareFn ex_opts_mixed match_all ex_files Undefined 0)))).
        \<exists>as t s v. c = (as, t, Settles s (Fulfilled v)) \<and> s \<le> 1)"
    by (simp add: run_simps ex_opts_mixed_def ex_each_mixed_def ex_files_def)
  from completion_waits_unless_failure [of ex_opts_mixed match_all ex_files Undefined 0] d late
  show ?thesis by auto
qed



text \<open>
  Claim C1 does not hold of the code where it says that on a successful run \<^verbatim>\<open>done\<close>
  receives no error whatever the \<^verbatim>\<open>after\<close> hook returned: \<^verbatim>\<open>done.bind(null)\<close> passes the
  value of the \<^verbatim>\<open>after\<close> promise on. With an \<^verbatim>\<open>after\<close> hook \<^verbatim>\<open>() => 5\<close> every phase
  fulfills and \<^verbatim>\<open>done\<close> is called as \<^verbatim>\<open>done(5)\<close>, a truthy first argument.
\<close>

theorem after_value_reaches_done:
  "calls_of After (trace (snd (middlewareFn ex_opts_five match_all ex_files Undefined 0)))
     = [([AFiles, AVal Undefined], 0, Settles 0 (Fulfilled (Num 5)))] \<and>
   done_calls (trace (snd (middlewareFn ex_opts_five match_all ex_files Undefined 0))) = [([Num 5], 0)] \<and>
   truthy (Num 5)"
  by (simp add: run_simps ex_opts_five_def ex_five_def ex_files_def)

text \<open>
  Claim C9 does not hold of the code where it says that the function may receive the
  file's content: the compiled matcher applies a function item to the filename alone,
  also in the filter of the middleware function. A match function that looks at its
  second argument therefore matches no file, and \<^verbatim>\<open>each\<close> is never called.
\<close>

theorem match_function_gets_filename_only:
  "filenameMatcher mm (Single (MFunction f)) options = Inr (\<lambda>item. f [item]) \<and>
   matched (\<lambda>item. f [item]) fs = filter (\<lambda>filename. truthy (f [Str filename])) (object_keys fs) \<and>
   filenameMatcher mm (Single (MFunction ex_wants_contents)) options
     = Inr (\<lambda>item. ex_wants_contents [item]) \<and>
   matched (\<lambda>item. ex_wants_contents [item]) [(''a.txt'', [(''contents'', Str ''text'')])] = [] \<and>
   calls_of Each (trace (snd (middlewareFn \<lparr>before = Some noop, each = Some noop, after = Some noop\<rparr>
       (\<lambda>item. ex_wants_contents [item]) [(''a.txt'', [(''contents'', Str ''text'')])] Undefined 0))) = []"
  by (simp add: filenameMatcher_def run_simps ex_wants_contents_def arg_at_def)

end
